theory Spec2Isabelle
  imports Main "HOL-Library.AList" "HOL-Library.Multiset" "HOL-Library.List_Lexorder" "HOL-Library.Char_ord"
begin

section \<open>Arrays, errors and tables\<close>

text \<open>
  The module \<^verbatim>\<open>rasa/utils/tf_model_data.py\<close> keeps a dictionary from keys to lists of
  numpy arrays (the columns). Every operation of the module works along the leading axis of a
  column, so an array of one or more dimensions is kept as the list of its leading-axis slices
  (each one flattened in row-major order) together with the trailing shape the slices share.
  A zero-dimensional array has no leading axis and is a case of its own. The element type is
  left open: numbers for label columns, numbers or sparse matrices for feature columns.
\<close>

datatype 'a ndarray = Zero_dim 'a | Array (trailing: "nat list") (rows: "'a list list")

fun shape :: "'a ndarray \<Rightarrow> nat list" where
  "shape (Zero_dim x) = []"
| "shape (Array t rs) = length rs # t"

definition ndim :: "'a ndarray \<Rightarrow> nat" where
  "ndim a = length (shape a)"

definition size_of :: "'a ndarray \<Rightarrow> nat" where
  "size_of a = prod_list (shape a)"

fun elems :: "'a ndarray \<Rightarrow> 'a list" where
  "elems (Zero_dim x) = [x]"
| "elems (Array t rs) = concat rs"

fun wf_array :: "'a ndarray \<Rightarrow> bool" where
  "wf_array (Zero_dim x) = True"
| "wf_array (Array t rs) = list_all (\<lambda>r. length r = prod_list t) rs"

text \<open>
  Every exception of the module is a \<^verbatim>\<open>ValueError\<close> told apart by its message; the
  constructors below name the raise sites. \<open>IndexError\<close> and \<open>ZeroDivisionError\<close> are
  raised by the interpreter or by numpy, \<open>SplitterError\<close> by the external splitter.
\<close>

datatype error =
    KeyExists            \<comment> \<open>"Key ... already exists in RasaModelData."\<close>
  | KeyNotInData         \<comment> \<open>"Key ... not in RasaModelData."\<close>
  | SizesDiffer          \<comment> \<open>"Number of examples differs for keys ..."\<close>
  | TestSetTooLarge      \<comment> \<open>"Test set of ... is too large. ..."\<close>
  | TestSetTooSmall      \<comment> \<open>"Test set of ... is too small. ..."\<close>
  | UnsupportedDims      \<comment> \<open>"Unsupported label_ids dimensions"\<close>
  | MinOfEmpty           \<comment> \<open>\<^verbatim>\<open>min()\<close> of an empty list\<close>
  | ConcatenateError     \<comment> \<open>\<^verbatim>\<open>np.concatenate\<close> of no array, or of arrays that do not fit\<close>
  | KeyError
  | IndexError
  | ZeroDivisionError
  | SplitterError

type_synonym key = string

text \<open>A Python dictionary keeps insertion order: an association list with distinct keys.\<close>

type_synonym 'a table = "(key \<times> 'a ndarray list) list"

section \<open>Label ids\<close>

text \<open>
  \<^verbatim>\<open>_create_label_ids\<close> returns either the label values themselves or one string per row.
  \<^verbatim>\<open>astype("str")\<close> depends on the element type and is the parameter \<open>to_str\<close>.
\<close>

datatype 'a label_ids = Vals "'a list" | Strs "string list"

fun join :: "string \<Rightarrow> string list \<Rightarrow> string" where
  "join sep [] = []"
| "join sep [s] = s"
| "join sep (s # t # ss) = s @ sep @ join sep (t # ss)"

text \<open>\<^verbatim>\<open>row[:, 0]\<close> on a flattened row of shape \<open>(k, m)\<close>: component \<open>(j, 0)\<close> sits at \<open>j * m\<close>.\<close>

definition first_of_each :: "nat \<Rightarrow> nat \<Rightarrow> 'a list \<Rightarrow> 'a list" where
  "first_of_each k m r = map (\<lambda>j. r ! (j * m)) [0..<k]"

fun create_label_ids :: "('a \<Rightarrow> string) \<Rightarrow> 'a ndarray \<Rightarrow> error + 'a label_ids" where
  "create_label_ids to_str (Zero_dim x) = Inl UnsupportedDims"
| "create_label_ids to_str (Array t rs) =
     (if length t = 0 then Inr (Vals (concat rs))
      else if length t = 1 \<and> last t = 1 then Inr (Vals (map (\<lambda>r. r ! 0) rs))
      else if length t = 1 then Inr (Strs (map (\<lambda>r. join '' '' (map to_str r)) rs))
      else if length t = 2 \<and> last t = 1 then
        Inr (Strs (map (\<lambda>r. join '' '' (map to_str (first_of_each (hd t) (last t) r))) rs))
      else Inl UnsupportedDims)"

text \<open>
  The rule as the specification words it: one-dimensional columns give their values, two-dimensional
  columns with trailing dimension 1 the squeezed values, two- and three-dimensional multi-valued
  columns one string per row, every other shape is refused.
\<close>

definition derive_label_ids_spec :: "('a \<Rightarrow> string) \<Rightarrow> 'a ndarray \<Rightarrow> error + 'a label_ids" where
  "derive_label_ids_spec to_str a =
     (if ndim a = 1 then Inr (Vals (elems a))
      else if ndim a = 2 \<and> last (shape a) = 1 then Inr (Vals (elems a))
      else if ndim a = 2 \<or> ndim a = 3 then
        Inr (Strs (map (\<lambda>r. join '' '' (map to_str r)) (rows a)))
      else Inl UnsupportedDims)"

text \<open>Decimal rendering of integers, the \<open>to_str\<close> of an integer label column.\<close>

definition digit_char :: "nat \<Rightarrow> char" where
  "digit_char d = ''0123456789'' ! d"

function str_of_nat :: "nat \<Rightarrow> string" where
  "str_of_nat n = (if n < 10 then [digit_char n] else str_of_nat (n div 10) @ [digit_char (n mod 10)])"
  by pat_completeness auto
termination
  by (relation "measure id") auto

definition str_of_int :: "int \<Rightarrow> string" where
  "str_of_int i = (if i < 0 then CHR ''-'' # str_of_nat (nat (- i)) else str_of_nat (nat i))"

section \<open>The container\<close>

text \<open>
  A mutating method returns what it raised, if anything, together with the table as the call
  leaves it: the table is part of the result also when the call fails.
\<close>

type_synonym 'a outcome = "error option \<times> 'a table"

definition columns :: "'a table \<Rightarrow> 'a ndarray list" where
  "columns t = concat (map snd t)"

text \<open>\<^verbatim>\<open>v.shape[0]\<close>: the shape of a zero-dimensional array is the empty tuple.\<close>

fun shape0 :: "'a ndarray \<Rightarrow> error + nat" where
  "shape0 (Zero_dim x) = Inl IndexError"
| "shape0 (Array t rs) = Inr (length rs)"

text \<open>Evaluating a list of results from left to right; the first exception ends it.\<close>

fun all_ok :: "(error + 'b) list \<Rightarrow> error + 'b list" where
  "all_ok [] = Inr []"
| "all_ok (Inl e # rs) = Inl e"
| "all_ok (Inr x # rs) = (case all_ok rs of Inl e \<Rightarrow> Inl e | Inr xs \<Rightarrow> Inr (x # xs))"

text \<open>
  \<^verbatim>\<open>add_features\<close>: nothing happens for an empty feature list; this test comes before the
  test for the key. The new entry goes to the end of the dictionary, and is deleted again
  when no feature has a positive \<^verbatim>\<open>size\<close>.
\<close>

definition add_features :: "key \<Rightarrow> 'a ndarray list \<Rightarrow> 'a table \<Rightarrow> 'a outcome" where
  "add_features key features t =
     (if features = [] then (None, t)
      else if key \<in> fst ` set t then (Some KeyExists, t)
      else
        let t1 = AList.update key [] t;
            kept = filter (\<lambda>d. 0 < size_of d) features;
            t2 = AList.update key kept t1
        in if kept = [] then (None, AList.delete key t2) else (None, t2))"

text \<open>
  \<^verbatim>\<open>add_mask\<close>. The guard \<^verbatim>\<open>not self.data.get(from_key)\<close> holds for a missing key and for
  an empty list of columns. The entry of \<open>key\<close> is then set to the empty list before the columns
  of \<open>from_key\<close> are read again. The mask itself,
  \<^verbatim>\<open>np.array([np.ones((x.shape[0], 1)) for x in data])\<close>, is an array of ones whose layout
  depends on what the elements of \<open>data\<close> are, and it raises when they have no leading
  dimension; it is the parameter \<open>mask_of\<close>.
\<close>

definition add_mask ::
  "('a ndarray \<Rightarrow> error + 'a ndarray) \<Rightarrow> key \<Rightarrow> key \<Rightarrow> 'a table \<Rightarrow> 'a outcome" where
  "add_mask mask_of key from_key t =
     (case map_of t from_key of
        None \<Rightarrow> (None, t)
      | Some [] \<Rightarrow> (None, t)
      | Some (c # cs) \<Rightarrow>
          let t1 = AList.update key [] t in
          (case List.find (\<lambda>d. 0 < size_of d) (case map_of t1 from_key of None \<Rightarrow> [] | Some ds \<Rightarrow> ds) of
             None \<Rightarrow> (None, t1)
           | Some d \<Rightarrow>
               (case mask_of d of
                  Inl e \<Rightarrow> (Some e, t1)
                | Inr m \<Rightarrow> (None, AList.update key [m] t1))))"

text \<open>
  The mask of a numeric array: one block of \<open>x.shape[0]\<close> ones per example. The examples of
  a one-dimensional numeric array are scalars, whose shape is empty; a zero-dimensional array
  cannot be iterated.
\<close>

fun ones_mask :: "'a \<Rightarrow> 'a ndarray \<Rightarrow> error + 'a ndarray" where
  "ones_mask one (Zero_dim x) = Inl IndexError"
| "ones_mask one (Array [] rs) = Inl IndexError"
| "ones_mask one (Array (n # t) rs) = Inr (Array [n, 1] (map (\<lambda>r. replicate n one) rs))"

text \<open>
  \<^verbatim>\<open>get_number_of_examples\<close>. \<^verbatim>\<open>all(...)\<close> over no lengths is true without reading
  \<^verbatim>\<open>example_lengths[0]\<close>; the \<^verbatim>\<open>return\<close> reads it.
\<close>

definition get_number_of_examples :: "'a table \<Rightarrow> error + nat" where
  "get_number_of_examples t =
     (case all_ok (map shape0 (columns t)) of
        Inl e \<Rightarrow> Inl e
      | Inr example_lengths \<Rightarrow>
          if \<not> list_all (\<lambda>l. l = example_lengths ! 0) example_lengths then Inl SizesDiffer
          else (case example_lengths of [] \<Rightarrow> Inl IndexError | l # ls \<Rightarrow> Inr l))"

fun is_array :: "'a ndarray \<Rightarrow> bool" where
  "is_array (Zero_dim x) = False"
| "is_array (Array t rs) = True"

definition num_rows :: "'a ndarray \<Rightarrow> nat" where
  "num_rows a = length (rows a)"

section \<open>Indexing along the leading axis\<close>

text \<open>\<^verbatim>\<open>v[mask]\<close> with a boolean mask: the mask has to be as long as the leading axis.\<close>

fun take_mask :: "bool list \<Rightarrow> 'a ndarray \<Rightarrow> error + 'a ndarray" where
  "take_mask m (Zero_dim x) = Inl IndexError"
| "take_mask m (Array t rs) =
     (if length m \<noteq> length rs then Inl IndexError
      else Inr (Array t (map fst (filter snd (zip rs m)))))"

text \<open>\<^verbatim>\<open>v[ids]\<close> with an array of row numbers.\<close>

fun take_ids :: "nat list \<Rightarrow> 'a ndarray \<Rightarrow> error + 'a ndarray" where
  "take_ids ids (Zero_dim x) = Inl IndexError"
| "take_ids ids (Array t rs) =
     (if list_all (\<lambda>i. i < length rs) ids then Inr (Array t (map (\<lambda>i. rs ! i) ids))
      else Inl IndexError)"

text \<open>
  \<^verbatim>\<open>xs[a:b]\<close>: a negative bound counts from the end, and both bounds are clipped to the list.
\<close>

definition clip_bound :: "int \<Rightarrow> nat \<Rightarrow> nat" where
  "clip_bound i n = (if i < 0 then nat (max 0 (i + int n)) else min (nat i) n)"

definition py_slice :: "int \<Rightarrow> int \<Rightarrow> 'b list \<Rightarrow> 'b list" where
  "py_slice a b xs =
     (let lo = clip_bound a (length xs); hi = clip_bound b (length xs)
      in take (hi - lo) (drop lo xs))"

fun slice_rows :: "int \<Rightarrow> int \<Rightarrow> 'a ndarray \<Rightarrow> error + 'a ndarray" where
  "slice_rows a b (Zero_dim x) = Inl IndexError"
| "slice_rows a b (Array t rs) = Inr (Array t (py_slice a b rs))"

text \<open>
  \<^verbatim>\<open>np.concatenate\<close> along the leading axis: it needs at least one array, no zero-dimensional
  array, and the same trailing shape throughout.
\<close>

fun same_trailing :: "nat list \<Rightarrow> 'a ndarray \<Rightarrow> bool" where
  "same_trailing t (Zero_dim x) = False"
| "same_trailing t (Array t' rs) = (t' = t)"

fun concatenate :: "'a ndarray list \<Rightarrow> error + 'a ndarray" where
  "concatenate [] = Inl ConcatenateError"
| "concatenate (Zero_dim x # as) = Inl ConcatenateError"
| "concatenate (Array t rs # as) =
     (if list_all (same_trailing t) as then Inr (Array t (rs @ concat (map rows as)))
      else Inl ConcatenateError)"

definition bnd :: "error + 'b \<Rightarrow> ('b \<Rightarrow> error + 'c) \<Rightarrow> error + 'c" where
  "bnd m f = (case m of Inl e \<Rightarrow> Inl e | Inr x \<Rightarrow> f x)"

definition nth_err :: "'b list \<Rightarrow> nat \<Rightarrow> error + 'b" where
  "nth_err xs i = (if i < length xs then Inr (xs ! i) else Inl IndexError)"

section \<open>Classes of label ids\<close>

text \<open>
  \<^verbatim>\<open>np.unique(label_ids, return_counts=True, axis=0)\<close>: the distinct labels in ascending
  order, each with the number of its occurrences.
\<close>

definition unique :: "'b::linorder list \<Rightarrow> 'b list \<times> nat list" where
  "unique xs = (let u = sort (remdups xs) in (u, map (count_list xs) u))"

text \<open>
  \<^verbatim>\<open>label_counts = dict(zip(*np.unique(...)))\<close> and
  \<^verbatim>\<open>counts = np.array([label_counts[label] for label in label_ids])\<close>.
\<close>

definition label_counts :: "'b::linorder list \<Rightarrow> ('b \<times> nat) list" where
  "label_counts xs = (case unique xs of (u, c) \<Rightarrow> zip u c)"

definition counts_per_row :: "'b::linorder list \<Rightarrow> error + nat list" where
  "counts_per_row xs =
     all_ok (map (\<lambda>l. case map_of (label_counts xs) l of None \<Rightarrow> Inl KeyError | Some c \<Rightarrow> Inr c) xs)"

fun num_label_counts :: "'a::linorder label_ids \<Rightarrow> nat" where
  "num_label_counts (Vals xs) = length (label_counts xs)"
| "num_label_counts (Strs ss) = length (label_counts ss)"

fun row_counts :: "'a::linorder label_ids \<Rightarrow> error + nat list" where
  "row_counts (Vals xs) = counts_per_row xs"
| "row_counts (Strs ss) = counts_per_row ss"

text \<open>\<^verbatim>\<open>label_ids[mask]\<close> on the one-dimensional array of label ids.\<close>

definition pick_mask :: "bool list \<Rightarrow> 'b list \<Rightarrow> 'b list" where
  "pick_mask m xs = map fst (filter snd (zip xs m))"

fun mask_labels :: "bool list \<Rightarrow> 'a label_ids \<Rightarrow> 'a label_ids" where
  "mask_labels m (Vals xs) = Vals (pick_mask m xs)"
| "mask_labels m (Strs ss) = Strs (pick_mask m ss)"

fun num_ids :: "'a label_ids \<Rightarrow> nat" where
  "num_ids (Vals xs) = length xs"
| "num_ids (Strs ss) = length ss"

section \<open>The splitter\<close>

text \<open>
  \<^verbatim>\<open>_check_label_key\<close>, and the read of \<^verbatim>\<open>self.data[label_key][0]\<close> that follows it: a key
  with no column passes the check and fails at the read.
\<close>

definition check_label_key :: "key \<Rightarrow> 'a table \<Rightarrow> error + unit" where
  "check_label_key label_key t =
     (case map_of t label_key of
        None \<Rightarrow> Inl KeyNotInData
      | Some cs \<Rightarrow> if 1 < length cs then Inl KeyNotInData else Inr ())"

definition label_column :: "key \<Rightarrow> 'a table \<Rightarrow> error + 'a ndarray" where
  "label_column label_key t =
     (case map_of t label_key of None \<Rightarrow> Inl KeyError | Some cs \<Rightarrow> nth_err cs 0)"

definition check_train_test_sizes :: "int \<Rightarrow> nat \<Rightarrow> 'a table \<Rightarrow> error + unit" where
  "check_train_test_sizes number_of_test_examples num_classes t =
     bnd (get_number_of_examples t) (\<lambda>number_of_total_examples.
       if number_of_test_examples \<ge> int number_of_total_examples - int num_classes
         then Inl TestSetTooLarge
       else if number_of_test_examples < int num_classes then Inl TestSetTooSmall
       else Inr ())"

text \<open>
  \<^verbatim>\<open>sklearn.model_selection.train_test_split\<close> is a library routine. It needs at least one
  array, takes the number of samples from the first one, draws the row numbers of the train and
  of the test part from the test size, the random state and the labels to stratify by, and
  returns \<^verbatim>\<open>a[train], a[test]\<close> for each array in turn. The draw is the parameter \<open>pick\<close>
  (seed, test size, labels, number of samples); it gives nothing when the library refuses its
  arguments.
\<close>

type_synonym 'a picker = "int \<Rightarrow> int \<Rightarrow> 'a label_ids \<Rightarrow> nat \<Rightarrow> (nat list \<times> nat list) option"

definition train_test_split ::
  "'a picker \<Rightarrow> 'a ndarray list \<Rightarrow> int \<Rightarrow> int \<Rightarrow> 'a label_ids \<Rightarrow> error + 'a ndarray list" where
  "train_test_split pick arrays test_size random_state stratify =
     (case arrays of
        [] \<Rightarrow> Inl SplitterError
      | a # as \<Rightarrow>
          (case shape0 a of
             Inl e \<Rightarrow> Inl SplitterError
           | Inr n_samples \<Rightarrow>
               (case pick random_state test_size stratify n_samples of
                  None \<Rightarrow> Inl SplitterError
                | Some (train, test) \<Rightarrow>
                    all_ok (concat (map (\<lambda>a. [take_ids train a, take_ids test a]) arrays)))))"

text \<open>
  \<^verbatim>\<open>_combine_features\<close>. A column is an \<^verbatim>\<open>np.ndarray\<close> by the declared type of the
  container (sparse matrices are elements of such arrays), so the call is
  \<^verbatim>\<open>np.concatenate([feature_1, feature_2])\<close>.
\<close>

definition combine_features :: "'a ndarray \<Rightarrow> 'a ndarray \<Rightarrow> error + 'a ndarray" where
  "combine_features feature_1 feature_2 = concatenate [feature_1, feature_2]"

text \<open>
  Filling a \<^verbatim>\<open>defaultdict(list)\<close> column by column in the order of the table: a key without
  columns never gets an entry.
\<close>

fun regroup :: "(key \<times> 'c list) list \<Rightarrow> 'b list \<Rightarrow> (key \<times> 'b list) list" where
  "regroup [] xs = []"
| "regroup ((k, vs) # t) xs =
     (if vs = [] then regroup t xs
      else (k, take (length vs) xs) # regroup t (drop (length vs) xs))"

definition convert_train_test_split ::
  "'a table \<Rightarrow> 'a ndarray list \<Rightarrow> 'a ndarray list \<Rightarrow> error + ('a table \<times> 'a table)" where
  "convert_train_test_split t output_values solo_values =
     bnd (all_ok (map (\<lambda>index.
            bnd (nth_err output_values (index * 2)) (\<lambda>feature_1.
            bnd (nth_err solo_values index) (\<lambda>feature_2.
            combine_features feature_1 feature_2))) [0..<length (columns t)])) (\<lambda>data_train.
     bnd (all_ok (map (\<lambda>index. nth_err output_values (index * 2 + 1)) [0..<length (columns t)]))
       (\<lambda>data_val.
     Inr (regroup t data_train, regroup t data_val)))"

definition split ::
  "'a picker \<Rightarrow> ('a \<Rightarrow> string) \<Rightarrow> int \<Rightarrow> int \<Rightarrow> key \<Rightarrow> ('a::linorder) table
     \<Rightarrow> error + ('a table \<times> 'a table)" where
  "split pick to_str number_of_test_examples random_seed label_key t =
     bnd (check_label_key label_key t) (\<lambda>_.
     bnd (label_column label_key t) (\<lambda>labels.
     bnd (create_label_ids to_str labels) (\<lambda>label_ids.
     bnd (check_train_test_sizes number_of_test_examples (num_label_counts label_ids) t) (\<lambda>_.
     bnd (row_counts label_ids) (\<lambda>counts.
     bnd (all_ok (map (take_mask (map (\<lambda>c. 1 < c) counts)) (columns t))) (\<lambda>multi_values.
     bnd (all_ok (map (take_mask (map (\<lambda>c. c = 1) counts)) (columns t))) (\<lambda>solo_values.
     bnd (train_test_split pick multi_values number_of_test_examples random_seed
            (mask_labels (map (\<lambda>c. 1 < c) counts) label_ids)) (\<lambda>output_values.
     convert_train_test_split t output_values solo_values))))))))"

section \<open>Shuffling and balancing\<close>

text \<open>
  \<^verbatim>\<open>_data_for_ids\<close> indexes every column and collects the results in a
  \<^verbatim>\<open>defaultdict(list)\<close>; the index is a boolean mask or an array of row numbers.
\<close>

definition data_for_ids :: "('a ndarray \<Rightarrow> error + 'a ndarray) \<Rightarrow> 'a table \<Rightarrow> error + 'a table" where
  "data_for_ids index t = bnd (all_ok (map index (columns t))) (\<lambda>cs. Inr (regroup t cs))"

text \<open>
  \<^verbatim>\<open>shuffle\<close>: the permutation drawn by \<^verbatim>\<open>np.random.permutation(data_points)\<close> from the
  process-wide random source is the parameter \<open>ids\<close>.
\<close>

definition shuffle_table :: "(nat \<Rightarrow> nat list) \<Rightarrow> 'a table \<Rightarrow> error + 'a table" where
  "shuffle_table draw t =
     bnd (get_number_of_examples t) (\<lambda>data_points. data_for_ids (take_ids (draw data_points)) t)"

text \<open>
  The classes of \<^verbatim>\<open>balance\<close>: \<^verbatim>\<open>counts_label_ids\<close> from \<^verbatim>\<open>np.unique\<close>, and the masks
  \<^verbatim>\<open>label_ids == label_id\<close> of \<^verbatim>\<open>_split_by_label_ids\<close>, one for each unique label id in
  ascending order.
\<close>

fun counts_label_ids :: "'a::linorder label_ids \<Rightarrow> nat list" where
  "counts_label_ids (Vals xs) = snd (unique xs)"
| "counts_label_ids (Strs ss) = snd (unique ss)"

fun label_masks :: "'a::linorder label_ids \<Rightarrow> bool list list" where
  "label_masks (Vals xs) = map (\<lambda>label_id. map (\<lambda>l. l = label_id) xs) (fst (unique xs))"
| "label_masks (Strs ss) = map (\<lambda>label_id. map (\<lambda>l. l = label_id) ss) (fst (unique ss))"

definition split_by_label_ids :: "'a::linorder label_ids \<Rightarrow> 'a table \<Rightarrow> error + 'a table list" where
  "split_by_label_ids label_ids t =
     all_ok (map (\<lambda>ids. data_for_ids (take_mask ids) t) (label_masks label_ids))"

text \<open>
  The length of the slice a class contributes in one round,
  \<^verbatim>\<open>int(counts_label_ids[index] / num_examples * batch_size) + 1\<close>. The source computes the
  product in double precision and \<^verbatim>\<open>int\<close> cuts the fraction off towards zero; the exact
  quotient stands for it here. The results on \<^verbatim>\<open>balance\<close> below are proved for any slice
  lengths and use this formula only to know when they are positive.
\<close>

definition trunc_div :: "int \<Rightarrow> int \<Rightarrow> int" where
  "trunc_div a b = (if 0 \<le> a then a div b else - ((- a) div b))"

definition index_batch_size :: "nat \<Rightarrow> nat \<Rightarrow> int \<Rightarrow> int" where
  "index_batch_size count_label_id num_examples batch_size =
     trunc_div (int count_label_id * batch_size) (int num_examples) + 1"

text \<open>
  The lists of the loop, and \<^verbatim>\<open>new_data\<close>: for each key and each column position the
  slices appended so far.
\<close>

record 'a balance_state =
  data_idx :: "int list"
  num_data_cycles :: "nat list"
  skipped :: "bool list"
  new_data :: "(key \<times> 'a ndarray list list) list"

text \<open>
  \<^verbatim>\<open>if len(new_data[k]) < i + 1: new_data[k].append([])\<close> and
  \<^verbatim>\<open>new_data[k][i].append(...)\<close> for the columns of one key.
\<close>

fun add_to_columns :: "'b list list \<Rightarrow> 'b list \<Rightarrow> 'b list list" where
  "add_to_columns cols [] = cols"
| "add_to_columns [] (v # vs) = [v] # add_to_columns [] vs"
| "add_to_columns (c # cols) (v # vs) = (c @ [v]) # add_to_columns cols vs"

text \<open>
  The two inner loops over the keys and columns of one class. \<^verbatim>\<open>new_data[k]\<close> on the
  \<^verbatim>\<open>defaultdict\<close> makes the entry when it is missing, which happens only for a key that
  has columns.
\<close>

fun append_slices ::
  "int \<Rightarrow> int \<Rightarrow> 'a table \<Rightarrow> (key \<times> 'a ndarray list list) list
     \<Rightarrow> error + (key \<times> 'a ndarray list list) list" where
  "append_slices a b [] nd = Inr nd"
| "append_slices a b ((k, values) # items) nd =
     (if values = [] then append_slices a b items nd
      else bnd (all_ok (map (slice_rows a b) values)) (\<lambda>slices.
             append_slices a b items
               (AList.update k
                  (add_to_columns (case map_of nd k of None \<Rightarrow> [] | Some cols \<Rightarrow> cols) slices) nd)))"

text \<open>
  What one class does to the lists after its slices are appended: the skip flag is cleared, the
  cursor moves on by the slice length, and when it reaches the number of rows of the class the
  pass counter goes up and the cursor returns to 0.
\<close>

definition advance ::
  "nat list \<Rightarrow> int \<Rightarrow> nat \<Rightarrow> (key \<times> 'a ndarray list list) list \<Rightarrow> 'a balance_state
     \<Rightarrow> 'a balance_state" where
  "advance counts slice_len index nd s =
     (let s1 = s\<lparr>skipped := (skipped s)[index := False], new_data := nd,
                data_idx := (data_idx s)[index := data_idx s ! index + slice_len]\<rparr>
      in if int (counts ! index) \<le> data_idx s1 ! index
         then s1\<lparr>num_data_cycles := (num_data_cycles s1)[index := num_data_cycles s1 ! index + 1],
                 data_idx := (data_idx s1)[index := 0]\<rparr>
         else s1)"

text \<open>
  The \<^verbatim>\<open>for index in indices_of_labels\<close> loop of one round, with its \<^verbatim>\<open>continue\<close> and its
  \<^verbatim>\<open>break\<close>.
\<close>

fun visit ::
  "nat list \<Rightarrow> nat \<Rightarrow> int \<Rightarrow> 'a table list \<Rightarrow> nat list \<Rightarrow> 'a balance_state
     \<Rightarrow> error + 'a balance_state" where
  "visit counts num_examples batch_size label_data [] s = Inr s"
| "visit counts num_examples batch_size label_data (index # rest) s =
     (if length counts \<le> index then Inl IndexError
      else if 0 < num_data_cycles s ! index \<and> \<not> skipped s ! index then
        visit counts num_examples batch_size label_data rest
          (s\<lparr>skipped := (skipped s)[index := True]\<rparr>)
      else
        bnd (append_slices (data_idx s ! index)
               (data_idx s ! index + index_batch_size (counts ! index) num_examples batch_size)
               (label_data ! index) (new_data s)) (\<lambda>nd.
          let s' = advance counts (index_batch_size (counts ! index) num_examples batch_size)
                     index nd s
          in if 0 < min_list (num_data_cycles s') then Inr s'
             else visit counts num_examples batch_size label_data rest s'))"

text \<open>
  The \<^verbatim>\<open>while min(num_data_cycles) == 0\<close> loop; \<open>body\<close> is one round, numbered so that
  each round can have its own order of the classes. The loop may run forever: not returning is
  the value \<open>None\<close>. \<^verbatim>\<open>min\<close> of an empty list raises.
\<close>

partial_function (option) balance_rounds ::
  "(nat \<Rightarrow> 'a balance_state \<Rightarrow> error + 'a balance_state) \<Rightarrow> nat \<Rightarrow> 'a balance_state
     \<Rightarrow> (error + 'a balance_state) option" where
  "balance_rounds body round s =
     (if num_data_cycles s = [] then Some (Inl MinOfEmpty)
      else if min_list (num_data_cycles s) = 0 then
        (case body round s of
           Inl e \<Rightarrow> Some (Inl e)
         | Inr s' \<Rightarrow> balance_rounds body (Suc round) s')
      else Some (Inr s))"

declare balance_rounds.simps [code]

text \<open>
  The last loop: \<^verbatim>\<open>np.concatenate\<close> over the slices of each column.
\<close>

definition final_data :: "(key \<times> 'a ndarray list list) list \<Rightarrow> error + 'a table" where
  "final_data nd = bnd (all_ok (map concatenate (concat (map snd nd)))) (\<lambda>cs. Inr (regroup nd cs))"

text \<open>
  \<^verbatim>\<open>balance\<close>. With \<open>shuffle\<close> the order of the classes in round \<open>r\<close> is the permutation
  \<open>perms r\<close> drawn from the process-wide random source, else it is the index order. The
  table is replaced only at the end, so a call that raises leaves it as it was.
\<close>

definition balance ::
  "(nat \<Rightarrow> nat list) \<Rightarrow> ('a \<Rightarrow> string) \<Rightarrow> int \<Rightarrow> bool \<Rightarrow> key \<Rightarrow> ('a::linorder) table
     \<Rightarrow> (error + 'a table) option" where
  "balance perms to_str batch_size shuffle label_key t =
     (case check_label_key label_key t of Inl e \<Rightarrow> Some (Inl e) | Inr _ \<Rightarrow>
      case label_column label_key t of Inl e \<Rightarrow> Some (Inl e) | Inr labels \<Rightarrow>
      case create_label_ids to_str labels of Inl e \<Rightarrow> Some (Inl e) | Inr label_ids \<Rightarrow>
      let counts = counts_label_ids label_ids;
          num_label_ids = length counts
      in
      case split_by_label_ids label_ids t of Inl e \<Rightarrow> Some (Inl e) | Inr label_data \<Rightarrow>
      case get_number_of_examples t of Inl e \<Rightarrow> Some (Inl e) | Inr num_examples \<Rightarrow>
      case balance_rounds
             (\<lambda>round. visit counts num_examples batch_size label_data
                (if shuffle then perms round else [0..<num_label_ids]))
             0
             \<lparr>data_idx = replicate num_label_ids 0,
              num_data_cycles = replicate num_label_ids 0,
              skipped = replicate num_label_ids False,
              new_data = []\<rparr> of
        None \<Rightarrow> None
      | Some (Inl e) \<Rightarrow> Some (Inl e)
      | Some (Inr s) \<Rightarrow> Some (final_data (new_data s)))"

section \<open>Notions used in the statements about the splitter\<close>

text \<open>The number of distinct label ids, and the two errors of the size check.\<close>

definition distinct_labels :: "'a label_ids \<Rightarrow> nat" where
  "distinct_labels l = (case l of Vals xs \<Rightarrow> card (set xs) | Strs ss \<Rightarrow> card (set ss))"

definition size_error :: "error \<Rightarrow> bool" where
  "size_error e \<longleftrightarrow> e = TestSetTooLarge \<or> e = TestSetTooSmall"

text \<open>
  The rows of an array at given row numbers, the number of rows that carry the same label as
  each row, and the row numbers whose count satisfies a condition.
\<close>

definition select_rows :: "nat list \<Rightarrow> 'a ndarray \<Rightarrow> 'a ndarray" where
  "select_rows ids a = Array (trailing a) (map (\<lambda>i. rows a ! i) ids)"

fun label_multiplicity :: "'a label_ids \<Rightarrow> nat list" where
  "label_multiplicity (Vals xs) = map (count_list xs) xs"
| "label_multiplicity (Strs ss) = map (count_list ss) ss"

definition rows_where :: "('b \<Rightarrow> bool) \<Rightarrow> 'b list \<Rightarrow> nat list" where
  "rows_where P counts = filter (\<lambda>i. P (counts ! i)) [0..<length counts]"

text \<open>
  A draw to run the splitter with: the last \<open>n\<close> rows are held out, whatever the seed and the
  labels. A second one that only answers for the seed 7.
\<close>

definition last_rows_pick :: "'a picker" where
  "last_rows_pick seed n labs m =
     (if 0 < n \<and> n < int m then Some ([0..<m - nat n], [m - nat n..<m]) else None)"


text \<open>One function applied to every column, keys without columns left out.\<close>

definition map_columns :: "('a ndarray \<Rightarrow> 'c) \<Rightarrow> 'a table \<Rightarrow> (key \<times> 'c list) list" where
  "map_columns f t = map (\<lambda>(k, vs). (k, map f vs)) (filter (\<lambda>(k, vs). vs \<noteq> []) t)"

section \<open>Notions used in the statements about balancing\<close>

text \<open>The row numbers of each class, in the order of the classes.\<close>

fun class_rows :: "'a::linorder label_ids \<Rightarrow> nat list list" where
  "class_rows (Vals xs) = map (\<lambda>label_id. rows_where (\<lambda>l. l = label_id) xs) (fst (unique xs))"
| "class_rows (Strs ss) = map (\<lambda>label_id. rows_where (\<lambda>l. l = label_id) ss) (fst (unique ss))"

text \<open>
  The lists of the loop fit the classes: every class has rows, and its cursor is below its
  number of rows, not negative when its slice length is positive, and not positive, with no
  pass completed, when its slice length is not positive.
\<close>

definition ctl_inv :: "nat list \<Rightarrow> (nat \<Rightarrow> int) \<Rightarrow> 'a balance_state \<Rightarrow> bool" where
  "ctl_inv counts sz s \<longleftrightarrow>
     length (data_idx s) = length counts \<and> length (num_data_cycles s) = length counts \<and>
     (\<forall>i<length counts.
        0 < counts ! i \<and> data_idx s ! i < int (counts ! i) \<and>
        (1 \<le> sz i \<longrightarrow> 0 \<le> data_idx s ! i) \<and>
        (sz i < 1 \<longrightarrow> data_idx s ! i \<le> 0 \<and> num_data_cycles s ! i = 0))"

text \<open>The rows that the classes without a completed pass still have to go through.\<close>

definition remaining :: "nat list \<Rightarrow> 'a balance_state \<Rightarrow> nat" where
  "remaining counts s =
     (\<Sum>i<length counts.
        if num_data_cycles s ! i = 0 then nat (int (counts ! i) - data_idx s ! i) else 0)"

text \<open>
  \<^verbatim>\<open>new_data\<close> after the slices with the row numbers \<open>chunks\<close> have been appended, and
  what these row numbers cover: all rows of a class that has completed a pass, and the rows
  before the cursor of every class.
\<close>

definition data_rep :: "'a table \<Rightarrow> nat list list \<Rightarrow> (key \<times> 'a ndarray list list) list \<Rightarrow> bool" where
  "data_rep t chunks nd \<longleftrightarrow>
     nd = (if chunks = [] then [] else map_columns (\<lambda>v. map (\<lambda>ch. select_rows ch v) chunks) t)"

definition covered :: "nat list list \<Rightarrow> nat list \<Rightarrow> 'a balance_state \<Rightarrow> bool" where
  "covered cls out s \<longleftrightarrow>
     (\<forall>i<length cls.
        (0 < num_data_cycles s ! i \<longrightarrow> set (cls ! i) \<subseteq> set out) \<and>
        set (take (nat (data_idx s ! i)) (cls ! i)) \<subseteq> set out) \<and>
     set out \<subseteq> \<Union> (set ` set cls)"


section \<open>Properties of label-id derivation\<close>

lemma first_of_each_one:
  assumes "length r = k"
  shows "first_of_each k (Suc 0) r = r"
  using assms by (simp add: first_of_each_def list_eq_iff_nth_eq)

lemma squeeze_rows:
  assumes "list_all (\<lambda>r. length r = Suc 0) rs"
  shows "map (\<lambda>r. r ! 0) rs = concat rs"
  using assms
proof (induction rs)
  case Nil
  then show ?case by simp
next
  case (Cons r rs)
  then obtain x where "r = [x]"
    by (cases r) auto
  with Cons show ?case by simp
qed

lemma joined_first_of_each:
  assumes "list_all (\<lambda>r. length r = k) rs"
  shows "map (\<lambda>r. join sep (map f (first_of_each k 1 r))) rs = map (\<lambda>r. join sep (map f r)) rs"
  using assms by (induction rs) (simp_all add: first_of_each_one)

text \<open>
  Claim C5, as the code has it. For every well-formed array, label-id derivation returns the
  values of a one-dimensional column, the squeezed values of a two-dimensional column whose
  trailing dimension is 1, one string per row (the stringified components joined by a blank)
  for any other two-dimensional column and for a three-dimensional column whose trailing
  dimension is 1, and the unsupported-shape error for every other shape, among them the
  three-dimensional columns whose trailing dimension is not 1.
\<close>

theorem create_label_ids_shapes:
  assumes "wf_array a"
  shows "create_label_ids to_str a =
     (if ndim a = 1 then Inr (Vals (elems a))
      else if ndim a = 2 \<and> last (shape a) = 1 then Inr (Vals (elems a))
      else if ndim a = 2 \<or> (ndim a = 3 \<and> last (shape a) = 1) then
        Inr (Strs (map (\<lambda>r. join '' '' (map to_str r)) (rows a)))
      else Inl UnsupportedDims)"
proof (cases a)
  case (Zero_dim x)
  then show ?thesis by (simp add: ndim_def)
next
  case (Array t rs)
  consider "length t = 0" | "length t = 1" | "length t = 2" | "2 < length t"
    by linarith
  then show ?thesis
  proof cases
    case 1
    with Array show ?thesis by (simp add: ndim_def)
  next
    case 2
    then obtain m where t: "t = [m]"
      by (cases t) auto
    show ?thesis
    proof (cases "m = 1")
      case True
      with assms Array t have "list_all (\<lambda>r. length r = Suc 0) rs" by simp
      from squeeze_rows [OF this] Array t True show ?thesis by (simp add: ndim_def)
    next
      case False
      with Array t show ?thesis by (simp add: ndim_def)
    qed
  next
    case 3
    then obtain k m where t: "t = [k, m]"
      by (cases t; cases "tl t") auto
    show ?thesis
    proof (cases "m = 1")
      case True
      with assms Array t have "list_all (\<lambda>r. length r = k) rs" by simp
      from joined_first_of_each [OF this] Array t True show ?thesis by (simp add: ndim_def)
    next
      case False
      with Array t show ?thesis by (simp add: ndim_def)
    qed
  next
    case 4
    with Array show ?thesis by (auto simp: ndim_def)
  qed
qed

theorem create_label_ids_shapes_witness:
  "wf_array (Array [2, 1] [[3, 4], [5, 6 :: int]]) \<and>
   create_label_ids str_of_int (Array [2, 1] [[3, 4], [5, 6]]) = Inr (Strs [''3 4'', ''5 6''])"
  using create_label_ids_shapes [of "Array [2, 1] [[3, 4], [5, 6 :: int]]" str_of_int]
  by (simp add: ndim_def str_of_int_def digit_char_def)

text \<open>
  The rule as worded sends every multi-valued three-dimensional column to strings; the code
  refuses the column of shape \<open>(1, 1, 2)\<close>.
\<close>

theorem create_label_ids_counterexample:
  "create_label_ids str_of_int (Array [1, 2] [[7, 8 :: int]]) = Inl UnsupportedDims \<and>
   derive_label_ids_spec str_of_int (Array [1, 2] [[7, 8 :: int]]) = Inr (Strs [''7 8''])"
  by (simp add: derive_label_ids_spec_def ndim_def str_of_int_def digit_char_def)

section \<open>Properties of the container\<close>

text \<open>
  Claim C7, as the code has it. For a key that is already in the table, \<open>add_features\<close>
  with a non-empty list of columns fails with the duplicate-key error and leaves the table as
  it was; with an empty list of columns it returns without an error, and again leaves the table
  as it was.
\<close>

theorem add_features_existing_key:
  assumes "key \<in> fst ` set t"
  shows "add_features key features t = (if features = [] then (None, t) else (Some KeyExists, t))"
  using assms by (simp add: add_features_def)

theorem add_features_existing_key_witness:
  "''text'' \<in> fst ` set [(''text'', [Array [] [[1 :: int], [2]]])] \<and>
   add_features ''text'' [Array [] [[3], [4]]] [(''text'', [Array [] [[1 :: int], [2]]])]
     = (Some KeyExists, [(''text'', [Array [] [[1], [2]]])])"
  using add_features_existing_key
    [of "''text''" "[(''text'', [Array [] [[1 :: int], [2]]])]" "[Array [] [[3], [4]]]"]
  by simp

text \<open>With no columns at all the call returns before it looks at the key.\<close>

theorem add_features_counterexample:
  "''text'' \<in> fst ` set [(''text'', [Array [] [[1 :: int], [2]]])] \<and>
   fst (add_features ''text'' [] [(''text'', [Array [] [[1 :: int], [2]]])]) \<noteq> Some KeyExists"
  by (simp add: add_features_def)

lemma map_of_update_other:
  assumes "k \<noteq> key"
  shows "map_of (AList.update key v t) k = map_of t k"
  using assms by (simp add: update_conv')

lemma keys_update:
  "map fst (AList.update key v t) = (if key \<in> fst ` set t then map fst t else map fst t @ [key])"
  by (simp add: update_keys)

text \<open>
  Claim C9, as the code has it. \<open>add_mask\<close> leaves the table as it was when the source key is
  missing or has an empty list of columns. Otherwise only the entry of \<open>key\<close> changes: every
  other key keeps its columns, the order of the keys stays, and \<open>key\<close> is added at the end
  when it is new. The entry of \<open>key\<close> becomes the one-element list with the mask of the first
  column of positive size under the source key; it becomes the empty list when the source key
  has no such column, when \<open>key\<close> is the source key itself, or when computing the mask raises.
\<close>

theorem add_mask_frame:
  shows "(map_of t from_key = None \<or> map_of t from_key = Some [] \<longrightarrow>
            add_mask mask_of key from_key t = (None, t)) \<and>
         (\<forall>cs. map_of t from_key = Some cs \<and> cs \<noteq> [] \<longrightarrow>
            (\<forall>k. k \<noteq> key \<longrightarrow> map_of (snd (add_mask mask_of key from_key t)) k = map_of t k) \<and>
            map fst (snd (add_mask mask_of key from_key t)) =
              (if key \<in> fst ` set t then map fst t else map fst t @ [key]) \<and>
            map_of (snd (add_mask mask_of key from_key t)) key =
              Some (case List.find (\<lambda>d. 0 < size_of d) (if key = from_key then [] else cs) of
                      None \<Rightarrow> []
                    | Some d \<Rightarrow> (case mask_of d of Inl e \<Rightarrow> [] | Inr m \<Rightarrow> [m])))"
proof (intro conjI impI allI)
  assume "map_of t from_key = None \<or> map_of t from_key = Some []"
  then show "add_mask mask_of key from_key t = (None, t)"
    by (auto simp: add_mask_def)
next
  fix cs k
  assume cs: "map_of t from_key = Some cs \<and> cs \<noteq> []" and k: "k \<noteq> key"
  then show "map_of (snd (add_mask mask_of key from_key t)) k = map_of t k"
    by (auto simp: add_mask_def Let_def map_of_update_other
        split: list.splits option.splits sum.splits)
next
  fix cs
  assume cs: "map_of t from_key = Some cs \<and> cs \<noteq> []"
  then show "map fst (snd (add_mask mask_of key from_key t)) =
      (if key \<in> fst ` set t then map fst t else map fst t @ [key])"
    by (auto simp: add_mask_def Let_def keys_update dom_update
        split: list.splits option.splits sum.splits)
next
  fix cs
  assume cs: "map_of t from_key = Some cs \<and> cs \<noteq> []"
  then show "map_of (snd (add_mask mask_of key from_key t)) key =
      Some (case List.find (\<lambda>d. 0 < size_of d) (if key = from_key then [] else cs) of
              None \<Rightarrow> []
            | Some d \<Rightarrow> (case mask_of d of Inl e \<Rightarrow> [] | Inr m \<Rightarrow> [m]))"
    by (cases "key = from_key")
       (auto simp: add_mask_def Let_def update_conv'
        split: list.splits option.splits sum.splits)
qed

theorem add_mask_frame_witness:
  "map_of [(''text'', [Array [2, 3] [[1, 2, 3, 4, 5, 6 :: int]]])] ''text''
     = Some [Array [2, 3] [[1, 2, 3, 4, 5, 6]]] \<and>
   add_mask (ones_mask 1) ''mask'' ''text'' [(''text'', [Array [2, 3] [[1, 2, 3, 4, 5, 6 :: int]]])]
     = (None, [(''text'', [Array [2, 3] [[1, 2, 3, 4, 5, 6]]]), (''mask'', [Array [2, 1] [[1, 1]]])]) \<and>
   map_of (snd (add_mask (ones_mask 1) ''mask'' ''text''
      [(''text'', [Array [2, 3] [[1, 2, 3, 4, 5, 6 :: int]]])])) ''mask'' = Some [Array [2, 1] [[1, 1]]] \<and>
   map_of [(''text'', [Array [2, 3] [[1, 2, 3, 4, 5, 6 :: int]]])] ''label'' = None \<and>
   add_mask (ones_mask 1) ''mask'' ''label'' [(''text'', [Array [2, 3] [[1, 2, 3, 4, 5, 6 :: int]]])]
     = (None, [(''text'', [Array [2, 3] [[1, 2, 3, 4, 5, 6]]])])"
  using add_mask_frame
    [of "[(''text'', [Array [2, 3] [[1, 2, 3, 4, 5, 6 :: int]]])]" "''text''" "ones_mask 1" "''mask''"]
    add_mask_frame
    [of "[(''text'', [Array [2, 3] [[1, 2, 3, 4, 5, 6 :: int]]])]" "''label''" "ones_mask 1" "''mask''"]
  by (simp add: add_mask_def size_of_def eval_nat_numeral)

text \<open>
  A source key whose only column has shape \<open>(0, 3)\<close> holds no non-empty data, yet the call
  adds the key \<open>mask\<close> with an empty list of columns.
\<close>

theorem add_mask_counterexample:
  "list_all (\<lambda>d. size_of d = 0) (the (map_of [(''text'', [Array [3] ([] :: int list list)])] ''text'')) \<and>
   snd (add_mask (ones_mask 1) ''mask'' ''text'' [(''text'', [Array [3] []])])
     = [(''text'', [Array [3] []]), (''mask'', [])] \<and>
   snd (add_mask (ones_mask 1) ''mask'' ''text'' [(''text'', [Array [3] ([] :: int list list)])])
     \<noteq> [(''text'', [Array [3] []])]"
  by (simp add: add_mask_def size_of_def)

lemma all_ok_shape0:
  assumes "list_all is_array cs"
  shows "all_ok (map shape0 cs) = Inr (map num_rows cs)"
  using assms
proof (induction cs)
  case Nil
  then show ?case by simp
next
  case (Cons c cs)
  then show ?case by (cases c) (simp_all add: num_rows_def)
qed

lemma all_equal_first:
  "list_all (\<lambda>l. l = f c) (map f (c # cs)) \<longleftrightarrow>
     \<not> (\<exists>a\<in>set (c # cs). \<exists>b\<in>set (c # cs). f a \<noteq> f b)"
proof -
  have "list_all (\<lambda>l. l = f c) (map f (c # cs)) \<longleftrightarrow> (\<forall>x\<in>set (c # cs). f x = f c)"
    unfolding list_all_iff by (simp only: set_map) blast
  also have "\<dots> \<longleftrightarrow> \<not> (\<exists>a\<in>set (c # cs). \<exists>b\<in>set (c # cs). f a \<noteq> f b)"
    by (metis list.set_intros(1))
  finally show ?thesis .
qed

text \<open>
  On a table with at least one column, all of one or more dimensions, the size error is raised
  exactly when two columns differ in their number of rows, and the common number of rows is
  returned otherwise.
\<close>

lemma get_number_of_examples_columns:
  assumes "columns t \<noteq> []" and "list_all is_array (columns t)"
  shows "get_number_of_examples t =
     (if \<exists>a\<in>set (columns t). \<exists>b\<in>set (columns t). num_rows a \<noteq> num_rows b then Inl SizesDiffer
      else Inr (num_rows (hd (columns t))))"
proof -
  obtain c cs where c: "columns t = c # cs"
    using assms(1) by (cases "columns t") auto
  have ok: "all_ok (map shape0 (c # cs)) = Inr (map num_rows (c # cs))"
    using assms(2) unfolding c by (rule all_ok_shape0)
  have first: "map num_rows (c # cs) ! 0 = num_rows c"
    by simp
  have "get_number_of_examples t =
     (if \<not> list_all (\<lambda>l. l = num_rows c) (map num_rows (c # cs)) then Inl SizesDiffer
      else Inr (num_rows c))"
    unfolding get_number_of_examples_def c ok sum.case first by (simp only: list.map list.case)
  then show ?thesis
    unfolding all_equal_first c by (simp only: list.sel not_not)
qed

text \<open>
  Claim C4 at the table without columns, which the constructor gives by default: no two columns
  disagree, and the call does not return a number; reading \<^verbatim>\<open>example_lengths[0]\<close> raises.
\<close>

theorem get_number_of_examples_empty:
  "get_number_of_examples ([] :: int table) = Inl IndexError"
  by (simp add: get_number_of_examples_def columns_def)

section \<open>Properties of the splitter\<close>



lemma length_label_counts: "length (label_counts xs) = card (set xs)"
  by (simp add: label_counts_def unique_def Let_def length_remdups_card_conv)

lemma num_label_counts_distinct: "num_label_counts l = distinct_labels l"
  by (cases l) (simp_all add: distinct_labels_def length_label_counts)

lemma bnd_Inr [simp]: "bnd (Inr x) f = f x"
  by (simp add: bnd_def)

lemma bnd_Inl [simp]: "bnd (Inl e) f = Inl e"
  by (simp add: bnd_def)

lemma bnd_eq_Inr:
  "bnd m f = Inr y \<longleftrightarrow> (\<exists>x. m = Inr x \<and> f x = Inr y)"
  by (cases m) simp_all

lemma bnd_eq_Inl:
  "bnd m f = Inl e \<longleftrightarrow> m = Inl e \<or> (\<exists>x. m = Inr x \<and> f x = Inl e)"
  by (cases m) simp_all

lemma all_ok_Inl:
  assumes "all_ok rs = Inl e"
  shows "Inl e \<in> set rs"
  using assms
proof (induction rs rule: all_ok.induct)
  case 1
  then show ?case by simp
next
  case (2 e' rs)
  then show ?case by simp
next
  case (3 x rs)
  then show ?case by (auto split: sum.splits)
qed


lemma take_mask_no_size_error: "take_mask m a = Inl e \<Longrightarrow> \<not> size_error e"
  by (cases a) (auto simp: size_error_def split: if_splits)

lemma take_ids_no_size_error: "take_ids is a = Inl e \<Longrightarrow> \<not> size_error e"
  by (cases a) (auto simp: size_error_def split: if_splits)

lemma concatenate_no_size_error: "concatenate as = Inl e \<Longrightarrow> \<not> size_error e"
  by (induction as rule: concatenate.induct) (auto simp: size_error_def split: if_splits)

lemma nth_err_no_size_error: "nth_err xs i = Inl e \<Longrightarrow> \<not> size_error e"
  by (auto simp: nth_err_def size_error_def split: if_splits)

lemma counts_per_row_no_size_error:
  assumes "counts_per_row xs = Inl e"
  shows "\<not> size_error e"
proof -
  from all_ok_Inl [OF assms [unfolded counts_per_row_def]]
  show ?thesis by (auto simp: size_error_def split: option.splits)
qed

lemma row_counts_no_size_error: "row_counts l = Inl e \<Longrightarrow> \<not> size_error e"
  by (cases l) (auto dest: counts_per_row_no_size_error)

lemma masked_columns_no_size_error:
  assumes "all_ok (map (take_mask m) cs) = Inl e"
  shows "\<not> size_error e"
  using all_ok_Inl [OF assms] by (auto dest: take_mask_no_size_error [OF sym])

lemma train_test_split_no_size_error:
  assumes "train_test_split pick arrays n seed labs = Inl e"
  shows "\<not> size_error e"
proof (cases "e = SplitterError")
  case True
  then show ?thesis by (simp add: size_error_def)
next
  case False
  with assms obtain tr te where
    "all_ok (concat (map (\<lambda>a. [take_ids tr a, take_ids te a]) arrays)) = Inl e"
    by (auto simp: train_test_split_def split: list.splits sum.splits option.splits)
  from all_ok_Inl [OF this] show ?thesis
    by (auto dest: take_ids_no_size_error [OF sym])
qed

lemma convert_no_size_error:
  assumes "convert_train_test_split t out solo = Inl e"
  shows "\<not> size_error e"
proof -
  from assms consider
    (train) "all_ok (map (\<lambda>index.
            bnd (nth_err out (index * 2)) (\<lambda>feature_1.
            bnd (nth_err solo index) (\<lambda>feature_2.
            combine_features feature_1 feature_2))) [0..<length (columns t)]) = Inl e"
    | (val) "all_ok (map (\<lambda>index. nth_err out (index * 2 + 1)) [0..<length (columns t)]) = Inl e"
    by (auto simp: convert_train_test_split_def bnd_eq_Inl)
  then show ?thesis
  proof cases
    case train
    from all_ok_Inl [OF this] obtain i where
      "bnd (nth_err out (i * 2)) (\<lambda>feature_1.
            bnd (nth_err solo i) (\<lambda>feature_2.
            combine_features feature_1 feature_2)) = Inl e"
      by auto
    then show ?thesis
      by (auto simp: bnd_eq_Inl combine_features_def
          dest: nth_err_no_size_error concatenate_no_size_error)
  next
    case val
    from all_ok_Inl [OF this] show ?thesis
      by (auto dest: nth_err_no_size_error [OF sym])
  qed
qed

lemma split_after_label_ids:
  assumes lab: "map_of t key = Some [labels]"
    and ids: "create_label_ids to_str labels = Inr label_ids"
  shows "split pick to_str n seed key t =
     bnd (check_train_test_sizes n (num_label_counts label_ids) t) (\<lambda>_.
     bnd (row_counts label_ids) (\<lambda>counts.
     bnd (all_ok (map (take_mask (map (\<lambda>c. 1 < c) counts)) (columns t))) (\<lambda>multi_values.
     bnd (all_ok (map (take_mask (map (\<lambda>c. c = 1) counts)) (columns t))) (\<lambda>solo_values.
     bnd (train_test_split pick multi_values n seed
            (mask_labels (map (\<lambda>c. 1 < c) counts) label_ids)) (\<lambda>output_values.
     convert_train_test_split t output_values solo_values)))))"
  by (simp add: split_def check_label_key_def label_column_def nth_err_def lab ids)

text \<open>What the size check of the code does, boundary included.\<close>

lemma split_size_check:
  assumes lab: "map_of t key = Some [labels]"
    and ids: "create_label_ids to_str labels = Inr label_ids"
    and N: "get_number_of_examples t = Inr N"
  shows "(int N - n \<le> int (distinct_labels label_ids) \<longrightarrow>
            split pick to_str n seed key t = Inl TestSetTooLarge) \<and>
         (n < int (distinct_labels label_ids) \<and> int (distinct_labels label_ids) < int N - n \<longrightarrow>
            split pick to_str n seed key t = Inl TestSetTooSmall) \<and>
         (int (distinct_labels label_ids) \<le> n \<and> int (distinct_labels label_ids) < int N - n \<longrightarrow>
            (\<forall>e. split pick to_str n seed key t = Inl e \<longrightarrow> \<not> size_error e))"
proof (intro conjI impI allI)
  assume "int N - n \<le> int (distinct_labels label_ids)"
  then show "split pick to_str n seed key t = Inl TestSetTooLarge"
    by (simp add: split_after_label_ids [OF lab ids] check_train_test_sizes_def N
        num_label_counts_distinct)
next
  assume "n < int (distinct_labels label_ids) \<and> int (distinct_labels label_ids) < int N - n"
  then show "split pick to_str n seed key t = Inl TestSetTooSmall"
    by (simp add: split_after_label_ids [OF lab ids] check_train_test_sizes_def N
        num_label_counts_distinct)
next
  fix e
  assume ok: "int (distinct_labels label_ids) \<le> n \<and> int (distinct_labels label_ids) < int N - n"
    and e: "split pick to_str n seed key t = Inl e"
  from ok have "check_train_test_sizes n (num_label_counts label_ids) t = Inr ()"
    by (simp add: check_train_test_sizes_def N num_label_counts_distinct)
  with e show "\<not> size_error e"
    unfolding split_after_label_ids [OF lab ids]
    by (auto simp: bnd_eq_Inl dest: row_counts_no_size_error masked_columns_no_size_error
        train_test_split_no_size_error convert_no_size_error)
qed

text \<open>
  Claim C3, as the code has it. Let the label key hold one column with \<open>C\<close> distinct label
  ids and let the table have \<open>N\<close> examples. If fewer than \<open>C\<close> examples would remain for
  training (\<open>N - n < C\<close>), \<open>split\<close> fails with the too-large error, also when \<open>n < C\<close>.
  If more than \<open>C\<close> examples would remain and \<open>n < C\<close>, it fails with the too-small error.
  If more than \<open>C\<close> examples would remain and \<open>n \<ge> C\<close>, it raises neither of the two.
\<close>

theorem split_size_errors:
  assumes lab: "map_of t key = Some [labels]"
    and ids: "create_label_ids to_str labels = Inr label_ids"
    and N: "get_number_of_examples t = Inr N"
  shows "(int N - n < int (distinct_labels label_ids) \<longrightarrow>
            split pick to_str n seed key t = Inl TestSetTooLarge) \<and>
         (n < int (distinct_labels label_ids) \<and> int (distinct_labels label_ids) < int N - n \<longrightarrow>
            split pick to_str n seed key t = Inl TestSetTooSmall) \<and>
         (int (distinct_labels label_ids) \<le> n \<and> int (distinct_labels label_ids) < int N - n \<longrightarrow>
            split pick to_str n seed key t \<noteq> Inl TestSetTooLarge \<and>
            split pick to_str n seed key t \<noteq> Inl TestSetTooSmall)"
  using split_size_check [OF lab ids N, of n pick seed]
  by (auto simp: size_error_def)

theorem split_size_errors_witness:
  "map_of [(''label'', [Array [] [[1], [1], [2], [2], [2 :: int]]])] ''label''
     = Some [Array [] [[1], [1], [2], [2], [2]]] \<and>
   create_label_ids str_of_int (Array [] [[1], [1], [2], [2], [2 :: int]]) = Inr (Vals [1, 1, 2, 2, 2]) \<and>
   get_number_of_examples [(''label'', [Array [] [[1], [1], [2], [2], [2 :: int]]])] = Inr 5 \<and>
   distinct_labels (Vals [1, 1, 2, 2, 2 :: int]) = 2 \<and>
   split last_rows_pick str_of_int 4 0 ''label'' [(''label'', [Array [] [[1], [1], [2], [2], [2 :: int]]])] = Inl TestSetTooLarge \<and>
   split last_rows_pick str_of_int 1 0 ''label'' [(''label'', [Array [] [[1], [1], [2], [2], [2 :: int]]])] = Inl TestSetTooSmall \<and>
   split last_rows_pick str_of_int 2 0 ''label'' [(''label'', [Array [] [[1], [1], [2], [2], [2 :: int]]])] \<noteq> Inl TestSetTooLarge \<and>
   split last_rows_pick str_of_int 2 0 ''label'' [(''label'', [Array [] [[1], [1], [2], [2], [2 :: int]]])] \<noteq> Inl TestSetTooSmall"
proof -
  have lab: "map_of [(''label'', [Array [] [[1], [1], [2], [2], [2 :: int]]])] ''label''
      = Some [Array [] [[1], [1], [2], [2], [2]]]"
    by simp
  have ids: "create_label_ids str_of_int (Array [] [[1], [1], [2], [2], [2 :: int]])
      = Inr (Vals [1, 1, 2, 2, 2])"
    by simp
  have N: "get_number_of_examples [(''label'', [Array [] [[1], [1], [2], [2], [2 :: int]]])] = Inr 5"
    by (simp add: get_number_of_examples_def columns_def)
  have C: "distinct_labels (Vals [1, 1, 2, 2, 2 :: int]) = 2"
    by (simp add: distinct_labels_def)
  show ?thesis
    using split_size_errors [OF lab ids N, of 4 last_rows_pick 0]
      split_size_errors [OF lab ids N, of 1 last_rows_pick 0]
      split_size_errors [OF lab ids N, of 2 last_rows_pick 0]
    unfolding C by (simp add: lab ids N)
qed

text \<open>
  Three examples with three distinct labels and one example to hold out: \<open>n < C\<close>, and the
  call fails with the too-large error, not with the too-small one.
\<close>

theorem split_size_errors_counterexample:
  "create_label_ids str_of_int (Array [] [[1], [2], [3 :: int]]) = Inr (Vals [1, 2, 3]) \<and>
   (1 :: int) < int (distinct_labels (Vals [1, 2, 3 :: int])) \<and>
   split last_rows_pick str_of_int 1 0 ''label'' [(''label'', [Array [] [[1], [2], [3 :: int]]])]
     = Inl TestSetTooLarge"
  by (simp add: split_def check_label_key_def label_column_def nth_err_def
      check_train_test_sizes_def get_number_of_examples_def columns_def length_label_counts
      distinct_labels_def)

text \<open>
  The boundary of the size check. With five examples of two classes and three to hold out, two
  examples remain for training, which is the number of classes; the message of the too-large
  error asks for a train set at least equal to the number of classes, and the call raises it.
\<close>

lemma split_size_check_boundary:
  "split last_rows_pick str_of_int 3 0 ''label'' [(''label'', [Array [] [[1], [1], [2], [2], [2 :: int]]])] = Inl TestSetTooLarge"
  by (simp add: split_def check_label_key_def label_column_def nth_err_def
      check_train_test_sizes_def get_number_of_examples_def columns_def length_label_counts)






lemma all_ok_map_Inr_id: "all_ok (map Inr ys) = Inr ys"
  by (induction ys) simp_all

lemma all_ok_Inr_D: "all_ok rs = Inr ys \<Longrightarrow> rs = map Inr ys"
  by (induction rs arbitrary: ys rule: all_ok.induct) (auto split: sum.splits)

lemma all_ok_Inr_iff: "all_ok rs = Inr ys \<longleftrightarrow> rs = map Inr ys"
  using all_ok_map_Inr_id all_ok_Inr_D by metis

lemma all_ok_map_Inr:
  assumes "all_ok (map g xs) = Inr ys"
  shows "length ys = length xs" and "i < length xs \<Longrightarrow> g (xs ! i) = Inr (ys ! i)"
proof -
  from assms have eq: "map g xs = map Inr ys"
    by (simp add: all_ok_Inr_iff)
  then show len: "length ys = length xs"
    by (metis length_map)
  assume "i < length xs"
  with eq len show "g (xs ! i) = Inr (ys ! i)"
    by (metis nth_map)
qed

lemma counts_per_row_eq: "counts_per_row xs = Inr (map (count_list xs) xs)"
proof -
  have "map_of (label_counts xs) l = Some (count_list xs l)" if "l \<in> set xs" for l
    using that by (simp add: label_counts_def unique_def Let_def map_of_zip_map)
  then have "map (\<lambda>l. case map_of (label_counts xs) l of None \<Rightarrow> Inl KeyError | Some c \<Rightarrow> Inr c) xs
      = map Inr (map (count_list xs) xs)"
    by simp
  then show ?thesis
    by (simp only: counts_per_row_def all_ok_Inr_iff)
qed

lemma row_counts_eq: "row_counts l = Inr (label_multiplicity l)"
  by (cases l) (simp_all add: counts_per_row_eq)

lemma mask_rows_nth:
  assumes "length rs = length m"
  shows "map fst (filter snd (zip rs m)) = map (\<lambda>i. rs ! i) (filter (\<lambda>i. m ! i) [0..<length m])"
  using assms
proof (induction rs m rule: rev_induct2)
  case 1
  then show ?case by simp
next
  case (2 r rs)
  then show ?case by simp
next
  case (3 b m)
  then show ?case by simp
next
  case (4 r rs b m)
  from "4.prems" have len: "length rs = length m"
    by simp
  have f: "filter (\<lambda>i. (m @ [b]) ! i) [0..<length m] = filter (\<lambda>i. m ! i) [0..<length m]"
    by (rule filter_cong) (simp_all add: nth_append)
  have g: "map (\<lambda>i. (rs @ [r]) ! i) (filter (\<lambda>i. m ! i) [0..<length m])
      = map (\<lambda>i. rs ! i) (filter (\<lambda>i. m ! i) [0..<length m])"
    using len by (intro map_cong refl) (simp add: nth_append)
  have last: "(rs @ [r]) ! length m = r"
    using len by (metis nth_append_length)
  show ?case
    using "4.IH" [OF len] len by (simp add: f g last)
qed

lemma mask_indices: "filter (\<lambda>i. map P counts ! i) [0..<length counts] = rows_where P counts"
  unfolding rows_where_def by (rule filter_cong) simp_all

lemma take_mask_Inr:
  assumes "take_mask (map P counts) a = Inr b"
  shows "is_array a" and "num_rows a = length counts" and "b = select_rows (rows_where P counts) a"
proof -
  from assms obtain t rs where a: "a = Array t rs"
    by (cases a) auto
  then show "is_array a" by simp
  from assms a show len: "num_rows a = length counts"
    by (auto simp: num_rows_def split: if_splits)
  from assms a len show "b = select_rows (rows_where P counts) a"
    using mask_rows_nth [of rs "map P counts"]
    by (auto simp: num_rows_def select_rows_def mask_indices split: if_splits)
qed

lemma take_ids_Inr:
  assumes "take_ids ids a = Inr b"
  shows "list_all (\<lambda>i. i < num_rows a) ids" and "b = select_rows ids a"
proof -
  from assms obtain t rs where a: "a = Array t rs"
    by (cases a) auto
  with assms show "list_all (\<lambda>i. i < num_rows a) ids" and "b = select_rows ids a"
    by (auto simp: num_rows_def select_rows_def split: if_splits)
qed

lemma all_ok_pairs:
  assumes "all_ok (concat (map (\<lambda>a. [f a, g a]) xs)) = Inr out"
  shows "length out = 2 * length xs"
    and "i < length xs \<Longrightarrow> f (xs ! i) = Inr (out ! (i * 2)) \<and> g (xs ! i) = Inr (out ! (i * 2 + 1))"
  using assms
proof (induction xs arbitrary: out i)
  case Nil
  { case 1 then show ?case by simp }
  { case 2 then show ?case by simp }
next
  case (Cons x xs)
  { case 1
    then obtain a b out' where out: "out = a # b # out'"
      and rest: "all_ok (concat (map (\<lambda>a. [f a, g a]) xs)) = Inr out'"
      by (auto simp: all_ok_Inr_iff Cons_eq_map_conv)
    with Cons.IH(1) [OF rest] show ?case by simp }
  { case 2
    then obtain a b out' where out: "out = a # b # out'" and fx: "f x = Inr a" and gx: "g x = Inr b"
      and rest: "all_ok (concat (map (\<lambda>a. [f a, g a]) xs)) = Inr out'"
      by (auto simp: all_ok_Inr_iff Cons_eq_map_conv)
    show ?case
    proof (cases i)
      case 0
      with out fx gx show ?thesis by simp
    next
      case (Suc j)
      with 2 have "j < length xs" by simp
      from Cons.IH(2) [OF this rest] Suc out show ?thesis by simp
    qed }
qed


lemma train_test_split_Inr:
  assumes "train_test_split pick arrays n seed labs = Inr out"
  obtains tr te where "arrays \<noteq> []"
    and "pick seed n labs (num_rows (hd arrays)) = Some (tr, te)"
    and "length out = 2 * length arrays"
    and "\<And>i. i < length arrays \<Longrightarrow>
           out ! (i * 2) = select_rows tr (arrays ! i) \<and>
           out ! (i * 2 + 1) = select_rows te (arrays ! i) \<and>
           list_all (\<lambda>j. j < num_rows (arrays ! i)) tr \<and>
           list_all (\<lambda>j. j < num_rows (arrays ! i)) te"
proof -
  from assms obtain a as m tr te where arrays: "arrays = a # as"
    and m: "shape0 a = Inr m"
    and pick: "pick seed n labs m = Some (tr, te)"
    and out: "all_ok (concat (map (\<lambda>a. [take_ids tr a, take_ids te a]) arrays)) = Inr out"
    by (auto simp: train_test_split_def split: list.splits sum.splits option.splits)
  from m have "m = num_rows a"
    by (cases a) (auto simp: num_rows_def)
  with pick arrays have p: "pick seed n labs (num_rows (hd arrays)) = Some (tr, te)"
    by simp
  have "out ! (i * 2) = select_rows tr (arrays ! i) \<and>
        out ! (i * 2 + 1) = select_rows te (arrays ! i) \<and>
        list_all (\<lambda>j. j < num_rows (arrays ! i)) tr \<and>
        list_all (\<lambda>j. j < num_rows (arrays ! i)) te" if "i < length arrays" for i
    using all_ok_pairs(2) [OF out that]
    by (metis take_ids_Inr)
  with arrays p all_ok_pairs(1) [OF out] that show ?thesis
    by blast
qed

lemma select_rows_select_rows:
  assumes "list_all (\<lambda>j. j < length ms) ids"
  shows "select_rows ids (select_rows ms a) = select_rows (map (\<lambda>j. ms ! j) ids) a"
  using assms by (simp add: select_rows_def list_all_iff)

lemma num_rows_select_rows [simp]: "num_rows (select_rows ids a) = length ids"
  by (simp add: num_rows_def select_rows_def)

lemma combine_select_rows:
  "combine_features (select_rows xs a) (select_rows ys a) = Inr (select_rows (xs @ ys) a)"
  by (simp add: combine_features_def select_rows_def)

lemma columns_regroup:
  assumes "length xs = length (columns t)"
  shows "columns (regroup t xs) = xs"
  using assms
proof (induction t xs rule: regroup.induct)
  case (1 xs)
  then show ?case by (simp add: columns_def)
next
  case (2 k vs t xs)
  then show ?case by (auto simp: columns_def)
qed

lemma regroup_map_columns: "regroup t (map f (columns t)) = map_columns f t"
proof (induction t)
  case Nil
  then show ?case by (simp add: map_columns_def)
next
  case (Cons kv t)
  obtain k vs where kv: "kv = (k, vs)"
    by (cases kv)
  from Cons have "regroup t (map f (concat (map snd t))) = map_columns f t"
    by (simp add: columns_def)
  then show ?case
    by (simp add: kv columns_def map_columns_def)
qed

lemma set_rows_where: "set (rows_where P counts) = {i. i < length counts \<and> P (counts ! i)}"
  by (auto simp: rows_where_def)

lemma distinct_rows_where: "distinct (rows_where P counts)"
  by (simp add: rows_where_def)

lemma mset_map_nth_perm:
  assumes "mset ids = mset [0..<length ms]"
  shows "mset (map (\<lambda>j. ms ! j) ids) = mset ms"
proof -
  have "mset (map (\<lambda>j. ms ! j) ids) = image_mset (\<lambda>j. ms ! j) (mset ids)"
    by simp
  also have "\<dots> = mset (map (\<lambda>j. ms ! j) [0..<length ms])"
    unfolding assms by simp
  also have "map (\<lambda>j. ms ! j) [0..<length ms] = ms"
    by (rule map_nth)
  finally show ?thesis .
qed


lemma masked_columns:
  assumes "all_ok (map (take_mask (map P counts)) cols) = Inr vs"
  shows "length vs = length cols"
    and "list_all (\<lambda>c. is_array c \<and> num_rows c = length counts) cols"
    and "vs = map (select_rows (rows_where P counts)) cols"
proof -
  show len: "length vs = length cols"
    using all_ok_map_Inr(1) [OF assms] .
  have each: "take_mask (map P counts) (cols ! i) = Inr (vs ! i)" if "i < length cols" for i
    using all_ok_map_Inr(2) [OF assms that] .
  show "list_all (\<lambda>c. is_array c \<and> num_rows c = length counts) cols"
    unfolding list_all_length using each take_mask_Inr(1,2) by blast
  show "vs = map (select_rows (rows_where P counts)) cols"
  proof (rule nth_equalityI)
    show "length vs = length (map (select_rows (rows_where P counts)) cols)"
      using len by simp
  next
    fix i
    assume "i < length vs"
    with len have i: "i < length cols"
      by simp
    from take_mask_Inr(3) [OF each [OF i]] i
    show "vs ! i = map (select_rows (rows_where P counts)) cols ! i"
      by simp
  qed
qed

text \<open>
  Claim C2. Whenever \<open>split\<close> returns, the label key holds one column, every column of the
  table has as many rows as there are label ids, and there are row numbers \<open>tr\<close> and \<open>te\<close>,
  all of them rows whose label occurs more than once, such that every column of the test table
  is the source column at the rows \<open>te\<close> and every column of the train table is the source
  column at the rows \<open>tr\<close> followed by all rows whose label occurs exactly once. So no row
  of a singleton class is in the test table and all of them are in the train table. When the
  library's draw is a partition of the rows it is given, \<open>tr\<close> and \<open>te\<close> together are
  exactly the rows whose label occurs more than once, each taken once.
\<close>

theorem split_singletons_stay_in_train:
  assumes ok: "split pick to_str n seed key t = Inr (train, test)"
  shows "\<exists>labels label_ids tr te.
     map_of t key = Some [labels] \<and> create_label_ids to_str labels = Inr label_ids \<and>
     (let counts = label_multiplicity label_ids;
          multi = rows_where (\<lambda>c. 1 < c) counts;
          solo = rows_where (\<lambda>c. c = 1) counts
      in list_all (\<lambda>c. is_array c \<and> num_rows c = length counts) (columns t) \<and>
         set tr \<subseteq> set multi \<and> set te \<subseteq> set multi \<and>
         train = map_columns (select_rows (tr @ solo)) t \<and>
         test = map_columns (select_rows te) t \<and>
         ((\<forall>labs m tr te. pick seed n labs m = Some (tr, te) \<longrightarrow> mset (tr @ te) = mset [0..<m])
            \<longrightarrow> mset (tr @ te) = mset multi))"
proof -
  from ok obtain labels label_ids counts multi_values solo_values out where
    chk: "check_label_key key t = Inr ()"
    and lc: "label_column key t = Inr labels"
    and ids: "create_label_ids to_str labels = Inr label_ids"
    and rc: "row_counts label_ids = Inr counts"
    and mv: "all_ok (map (take_mask (map (\<lambda>c. 1 < c) counts)) (columns t)) = Inr multi_values"
    and sv: "all_ok (map (take_mask (map (\<lambda>c. c = 1) counts)) (columns t)) = Inr solo_values"
    and tts: "train_test_split pick multi_values n seed
                (mask_labels (map (\<lambda>c. 1 < c) counts) label_ids) = Inr out"
    and conv: "convert_train_test_split t out solo_values = Inr (train, test)"
    unfolding split_def bnd_eq_Inr by (elim exE conjE) (rule that, simp_all)
  define multi where "multi = rows_where (\<lambda>c. 1 < c) counts"
  define solo where "solo = rows_where (\<lambda>c. c = 1) counts"
  define cols where "cols = columns t"
  have counts: "counts = label_multiplicity label_ids"
    using rc by (simp add: row_counts_eq)
  have lab: "map_of t key = Some [labels]"
  proof -
    from chk lc obtain cs where cs: "map_of t key = Some cs" "\<not> 1 < length cs" "nth_err cs 0 = Inr labels"
      by (auto simp: check_label_key_def label_column_def split: option.splits if_splits)
    then have "cs = [labels]"
      by (cases cs) (auto simp: nth_err_def split: if_splits)
    with cs show ?thesis by simp
  qed
  note m = masked_columns [OF mv, folded multi_def cols_def]
  note s = masked_columns [OF sv, folded solo_def cols_def]
  from tts obtain tr0 te0 where ne: "multi_values \<noteq> []"
    and pick: "pick seed n (mask_labels (map (\<lambda>c. 1 < c) counts) label_ids)
                 (num_rows (hd multi_values)) = Some (tr0, te0)"
    and lout: "length out = 2 * length multi_values"
    and outs: "\<And>i. i < length multi_values \<Longrightarrow>
           out ! (i * 2) = select_rows tr0 (multi_values ! i) \<and>
           out ! (i * 2 + 1) = select_rows te0 (multi_values ! i) \<and>
           list_all (\<lambda>j. j < num_rows (multi_values ! i)) tr0 \<and>
           list_all (\<lambda>j. j < num_rows (multi_values ! i)) te0"
    by (rule train_test_split_Inr) blast
  have rows_mv: "num_rows (multi_values ! i) = length multi" if "i < length cols" for i
    using that m(3) by simp
  from ne m(1) have pos: "0 < length cols" "0 < length multi_values"
    by auto
  have hd_mv: "num_rows (hd multi_values) = length multi"
    using rows_mv [OF pos(1)] ne by (simp add: hd_conv_nth)
  have tr0: "list_all (\<lambda>j. j < length multi) tr0" and te0: "list_all (\<lambda>j. j < length multi) te0"
    using outs [OF pos(2)] rows_mv [OF pos(1)] by simp_all
  define tr where "tr = map (\<lambda>j. multi ! j) tr0"
  define te where "te = map (\<lambda>j. multi ! j) te0"
  have sub: "set tr \<subseteq> set multi" "set te \<subseteq> set multi"
    using tr0 te0 by (auto simp: tr_def te_def list_all_iff)
  from conv obtain data_train data_val where
    dt: "all_ok (map (\<lambda>index.
            bnd (nth_err out (index * 2)) (\<lambda>feature_1.
            bnd (nth_err solo_values index) (\<lambda>feature_2.
            combine_features feature_1 feature_2))) [0..<length cols]) = Inr data_train"
    and dv: "all_ok (map (\<lambda>index. nth_err out (index * 2 + 1)) [0..<length cols]) = Inr data_val"
    and train: "train = regroup t data_train" and test: "test = regroup t data_val"
    unfolding convert_train_test_split_def bnd_eq_Inr cols_def by blast
  have out_tr: "out ! (i * 2) = select_rows tr (cols ! i)"
    and out_te: "out ! (i * 2 + 1) = select_rows te (cols ! i)" if "i < length cols" for i
    using that outs [of i] m(1) m(3) tr0 te0
    by (simp_all add: select_rows_select_rows tr_def te_def)
  have "data_train = map (select_rows (tr @ solo)) cols"
  proof (rule nth_equalityI)
    show "length data_train = length (map (select_rows (tr @ solo)) cols)"
      using all_ok_map_Inr(1) [OF dt] by simp
  next
    fix i
    assume "i < length data_train"
    then have i: "i < length cols"
      using all_ok_map_Inr(1) [OF dt] by simp
    from all_ok_map_Inr(2) [OF dt, of i] i
    have "bnd (nth_err out (i * 2)) (\<lambda>feature_1.
            bnd (nth_err solo_values i) (\<lambda>feature_2.
            combine_features feature_1 feature_2)) = Inr (data_train ! i)"
      by simp
    moreover have "nth_err out (i * 2) = Inr (select_rows tr (cols ! i))"
      using i lout m(1) out_tr [OF i] by (simp add: nth_err_def)
    moreover have "nth_err solo_values i = Inr (select_rows solo (cols ! i))"
      using i s(1) s(3) by (simp add: nth_err_def)
    ultimately show "data_train ! i = map (select_rows (tr @ solo)) cols ! i"
      using i by (simp add: combine_select_rows)
  qed
  then have train': "train = map_columns (select_rows (tr @ solo)) t"
    unfolding train cols_def by (simp only: regroup_map_columns)
  have "data_val = map (select_rows te) cols"
  proof (rule nth_equalityI)
    show "length data_val = length (map (select_rows te) cols)"
      using all_ok_map_Inr(1) [OF dv] by simp
  next
    fix i
    assume "i < length data_val"
    then have i: "i < length cols"
      using all_ok_map_Inr(1) [OF dv] by simp
    from all_ok_map_Inr(2) [OF dv, of i] i
    have "nth_err out (i * 2 + 1) = Inr (data_val ! i)"
      by simp
    moreover have "nth_err out (i * 2 + 1) = Inr (select_rows te (cols ! i))"
      using i lout m(1) out_te [OF i] by (simp add: nth_err_def)
    ultimately show "data_val ! i = map (select_rows te) cols ! i"
      using i by simp
  qed
  then have test': "test = map_columns (select_rows te) t"
    unfolding test cols_def by (simp only: regroup_map_columns)
  have part: "mset (tr @ te) = mset multi"
    if "\<forall>labs m tr te. pick seed n labs m = Some (tr, te) \<longrightarrow> mset (tr @ te) = mset [0..<m]"
  proof -
    from that pick have "mset (tr0 @ te0) = mset [0..<length multi]"
      unfolding hd_mv by blast
    from mset_map_nth_perm [OF this] show ?thesis
      by (simp add: tr_def te_def)
  qed
  show ?thesis
    using lab ids m(2) sub train' test' part
    unfolding Let_def multi_def solo_def cols_def counts
    by blast
qed


lemma last_rows_pick_partition:
  "\<forall>labs m tr te. last_rows_pick seed n labs m = Some (tr, te) \<longrightarrow> mset (tr @ te) = mset [0..<m]"
proof (intro allI impI)
  fix labs :: "'a label_ids" and m tr te
  assume "last_rows_pick seed n labs m = Some (tr, te)"
  then have n: "nat n \<le> m" and tr: "tr = [0..<m - nat n]" and te: "te = [m - nat n..<m]"
    by (auto simp: last_rows_pick_def split: if_splits)
  have "[0..<m - nat n] @ [m - nat n..<m] = [0..<m]"
    using n upt_add_eq_append [of 0 "m - nat n" "nat n"] by simp
  then show "mset (tr @ te) = mset [0..<m]"
    unfolding tr te by (simp only:)
qed

theorem split_singletons_stay_in_train_witness:
  "split last_rows_pick str_of_int 3 0 ''label''
     [(''text'', [Array [2] [[10, 11], [20, 21], [30, 31], [40, 41], [50, 51], [60, 61], [70, 71 :: int]]]),
      (''label'', [Array [] [[1], [2], [1], [2], [1], [2], [3]]])]
   = Inr ([(''text'', [Array [2] [[10, 11], [20, 21], [30, 31], [70, 71]]]),
           (''label'', [Array [] [[1], [2], [1], [3]]])],
          [(''text'', [Array [2] [[40, 41], [50, 51], [60, 61]]]),
           (''label'', [Array [] [[2], [1], [2]]])]) \<and>
   (\<exists>labels label_ids tr te.
      map_of [(''text'', [Array [2] [[10, 11], [20, 21], [30, 31], [40, 41], [50, 51], [60, 61], [70, 71 :: int]]]),
      (''label'', [Array [] [[1], [2], [1], [2], [1], [2], [3]]])] ''label'' = Some [labels] \<and>
      create_label_ids str_of_int labels = Inr label_ids \<and>
      set te \<subseteq> set (rows_where (\<lambda>c. 1 < c) (label_multiplicity label_ids)) \<and>
      mset (tr @ te) = mset (rows_where (\<lambda>c. 1 < c) (label_multiplicity label_ids)))"
proof -
  have ok: "split last_rows_pick str_of_int 3 0 ''label''
     [(''text'', [Array [2] [[10, 11], [20, 21], [30, 31], [40, 41], [50, 51], [60, 61], [70, 71 :: int]]]),
      (''label'', [Array [] [[1], [2], [1], [2], [1], [2], [3]]])]
   = Inr ([(''text'', [Array [2] [[10, 11], [20, 21], [30, 31], [70, 71]]]),
           (''label'', [Array [] [[1], [2], [1], [3]]])],
          [(''text'', [Array [2] [[40, 41], [50, 51], [60, 61]]]),
           (''label'', [Array [] [[2], [1], [2]]])])"
    by (simp add: split_def check_label_key_def label_column_def nth_err_def
      check_train_test_sizes_def get_number_of_examples_def columns_def length_label_counts
      counts_per_row_def label_counts_def unique_def train_test_split_def
      last_rows_pick_def convert_train_test_split_def combine_features_def)
  from split_singletons_stay_in_train [OF ok] last_rows_pick_partition [of 0 3] ok
  show ?thesis
    unfolding Let_def by blast
qed


section \<open>Properties of the balancing loop\<close>

lemma balance_rounds_invariant:
  fixes s :: "'a balance_state"
  assumes ret: "balance_rounds body r s = Some (Inr s')"
    and inv: "I s"
    and step: "\<And>r s s'. I s \<Longrightarrow> body r s = Inr s' \<Longrightarrow> I s'"
  shows "I s' \<and> num_data_cycles s' \<noteq> [] \<and> 0 < min_list (num_data_cycles s')"
proof -
  let ?P = "\<lambda>(body :: nat \<Rightarrow> 'a balance_state \<Rightarrow> error + 'a balance_state) (r :: nat) s y.
      (\<forall>r s s'. I s \<longrightarrow> body r s = Inr s' \<longrightarrow> I s') \<longrightarrow> I s \<longrightarrow>
        (\<forall>s'. y = Inr s' \<longrightarrow> I s' \<and> num_data_cycles s' \<noteq> [] \<and> 0 < min_list (num_data_cycles s'))"
  have "?P body r s y" if "balance_rounds body r s = Some y" for y
  proof (rule balance_rounds.raw_induct [where P = ?P, OF _ that])
    fix rounds body r s y
    assume IH: "\<And>body r s y. rounds body r s = Some y \<Longrightarrow> ?P body r s y"
      and eq: "(if num_data_cycles s = [] then Some (Inl MinOfEmpty)
          else if min_list (num_data_cycles s) = 0
            then case body r s of Inl e \<Rightarrow> Some (Inl e) | Inr s' \<Rightarrow> rounds body (Suc r) s'
            else Some (Inr s)) = Some y"
    show "?P body r s y"
    proof (intro impI allI)
      fix s'
      assume st: "\<forall>r s s'. I s \<longrightarrow> body r s = Inr s' \<longrightarrow> I s'" and i: "I s" and y: "y = Inr s'"
      show "I s' \<and> num_data_cycles s' \<noteq> [] \<and> 0 < min_list (num_data_cycles s')"
      proof (cases "num_data_cycles s \<noteq> [] \<and> min_list (num_data_cycles s) = 0")
        case True
        with eq y obtain s1 where b: "body r s = Inr s1" and r: "rounds body (Suc r) s1 = Some (Inr s')"
          by (auto split: sum.splits)
        from st i b have "I s1" by blast
        with IH [OF r] st show ?thesis by blast
      next
        case False
        with eq y i show ?thesis
          by (auto split: if_splits)
      qed
    qed
  qed
  from this [OF ret] inv step show ?thesis
    by blast
qed

lemma balance_rounds_terminates:
  assumes inv: "I s"
    and step: "\<And>r s s'. I s \<Longrightarrow> num_data_cycles s \<noteq> [] \<Longrightarrow> min_list (num_data_cycles s) = 0
                 \<Longrightarrow> body r s = Inr s' \<Longrightarrow> I s' \<and> \<mu> s' < (\<mu> s :: nat)"
  shows "\<exists>res. balance_rounds body r s = Some res"
  using inv
proof (induction "\<mu> s" arbitrary: s r rule: less_induct)
  case less
  show ?case
  proof (cases "num_data_cycles s \<noteq> [] \<and> min_list (num_data_cycles s) = 0")
    case True
    show ?thesis
    proof (cases "body r s")
      case (Inl e)
      with True show ?thesis
        by (subst balance_rounds.simps) simp
    next
      case (Inr s1)
      from step [OF less.prems _ _ Inr] True have "I s1" "\<mu> s1 < \<mu> s"
        by simp_all
      from less.hyps [OF this(2) this(1)] obtain res where "balance_rounds body (Suc r) s1 = Some res"
        by blast
      with True Inr show ?thesis
        by (subst balance_rounds.simps) simp
    qed
  next
    case False
    then show ?thesis
      by (subst balance_rounds.simps) auto
  qed
qed

lemma balance_rounds_diverges:
  assumes stuck: "stuck s"
    and step: "\<And>r s. stuck s \<Longrightarrow> num_data_cycles s \<noteq> [] \<and> min_list (num_data_cycles s) = 0 \<and>
                 (\<exists>s'. body r s = Inr s' \<and> stuck s')"
  shows "balance_rounds body r s = None"
proof (rule ccontr)
  assume "balance_rounds body r s \<noteq> None"
  then obtain y where ret: "balance_rounds body r s = Some y"
    by blast
  let ?P = "\<lambda>body (r :: nat) s (y :: error + 'a balance_state).
      (\<forall>r s. stuck s \<longrightarrow> num_data_cycles s \<noteq> [] \<and> min_list (num_data_cycles s) = 0 \<and>
                 (\<exists>s'. body r s = Inr s' \<and> stuck s')) \<longrightarrow> \<not> stuck s"
  have "?P body r s y"
  proof (rule balance_rounds.raw_induct [where P = ?P, OF _ ret])
    fix rounds body r s y
    assume IH: "\<And>body r s y. rounds body r s = Some y \<Longrightarrow> ?P body r s y"
      and eq: "(if num_data_cycles s = [] then Some (Inl MinOfEmpty)
          else if min_list (num_data_cycles s) = 0
            then case body r s of Inl e \<Rightarrow> Some (Inl e) | Inr s' \<Rightarrow> rounds body (Suc r) s'
            else Some (Inr s)) = Some y"
    show "?P body r s y"
    proof (intro impI notI)
      assume st: "\<forall>r s. stuck s \<longrightarrow> num_data_cycles s \<noteq> [] \<and> min_list (num_data_cycles s) = 0 \<and>
                 (\<exists>s'. body r s = Inr s' \<and> stuck s')" and s: "stuck s"
      then obtain s1 where c: "num_data_cycles s \<noteq> []" "min_list (num_data_cycles s) = 0"
        and b: "body r s = Inr s1" and s1: "stuck s1"
        by blast
      with eq have "rounds body (Suc r) s1 = Some y"
        by simp
      from IH [OF this] st s1 show False
        by blast
    qed
  qed
  with stuck step show False
    by blast
qed


lemma advance_fields:
  assumes "i < length (data_idx s)"
  shows "data_idx (advance counts sz i nd s) =
           (data_idx s)[i := (if int (counts ! i) \<le> data_idx s ! i + sz then 0 else data_idx s ! i + sz)]"
    and "num_data_cycles (advance counts sz i nd s) =
           (if int (counts ! i) \<le> data_idx s ! i + sz
            then (num_data_cycles s)[i := num_data_cycles s ! i + 1] else num_data_cycles s)"
    and "new_data (advance counts sz i nd s) = nd"
  using assms by (simp_all add: advance_def Let_def)

lemma advance_ctl_inv:
  assumes inv: "ctl_inv counts sz s" and i: "i < length counts"
  shows "ctl_inv counts sz (advance counts (sz i) i nd s)"
proof -
  from inv i have len: "i < length (data_idx s)" "length (data_idx s) = length counts"
    "length (num_data_cycles s) = length counts"
    by (simp_all add: ctl_inv_def)
  have at: "0 < counts ! j \<and> data_idx s ! j < int (counts ! j) \<and>
        (1 \<le> sz j \<longrightarrow> 0 \<le> data_idx s ! j) \<and>
        (sz j < 1 \<longrightarrow> data_idx s ! j \<le> 0 \<and> num_data_cycles s ! j = 0)" if "j < length counts" for j
    using inv that by (simp add: ctl_inv_def)
  show ?thesis
    unfolding ctl_inv_def advance_fields [OF len(1)]
  proof (intro conjI allI impI)
    fix j
    assume j: "j < length counts"
    show "0 < counts ! j"
      using at [OF j] by simp
    show "(data_idx s)[i := if int (counts ! i) \<le> data_idx s ! i + sz i then 0 else data_idx s ! i + sz i] ! j
        < int (counts ! j)"
      using at [OF j] at [OF i] j len by (cases "j = i") auto
    assume "1 \<le> sz j"
    then show "0 \<le> (data_idx s)[i := if int (counts ! i) \<le> data_idx s ! i + sz i then 0
        else data_idx s ! i + sz i] ! j"
      using at [OF j] j len by (cases "j = i") auto
  next
    fix j
    assume j: "j < length counts" and "sz j < 1"
    then show "(data_idx s)[i := if int (counts ! i) \<le> data_idx s ! i + sz i then 0
        else data_idx s ! i + sz i] ! j \<le> 0"
      using at [OF j] len by (cases "j = i") auto
    from \<open>sz j < 1\<close> show "(if int (counts ! i) \<le> data_idx s ! i + sz i
        then (num_data_cycles s)[i := num_data_cycles s ! i + 1]
        else num_data_cycles s) ! j = 0"
      using at [OF j] j len by (cases "j = i") auto
  qed (simp_all add: len)
qed

lemma remaining_split:
  assumes "i < length counts"
  shows "remaining counts s =
     (if num_data_cycles s ! i = 0 then nat (int (counts ! i) - data_idx s ! i) else 0) +
     (\<Sum>j\<in>{..<length counts} - {i}.
        if num_data_cycles s ! j = 0 then nat (int (counts ! j) - data_idx s ! j) else 0)"
  unfolding remaining_def using assms by (subst sum.remove [of _ i]) simp_all

lemma advance_rest:
  assumes "i < length (data_idx s)"
  shows "(\<Sum>j\<in>{..<length counts} - {i}.
        if num_data_cycles (advance counts sz i nd s) ! j = 0
        then nat (int (counts ! j) - data_idx (advance counts sz i nd s) ! j) else 0) =
     (\<Sum>j\<in>{..<length counts} - {i}.
        if num_data_cycles s ! j = 0 then nat (int (counts ! j) - data_idx s ! j) else 0)"
  unfolding advance_fields [OF assms] by (rule sum.cong) auto

lemma advance_remaining:
  assumes inv: "ctl_inv counts sz s" and i: "i < length counts" and pos: "1 \<le> sz i"
  shows "remaining counts (advance counts (sz i) i nd s) \<le> remaining counts s"
    and "num_data_cycles s ! i = 0 \<Longrightarrow>
           remaining counts (advance counts (sz i) i nd s) < remaining counts s"
proof -
  from inv i have len: "i < length (data_idx s)" "i < length (num_data_cycles s)"
    by (simp_all add: ctl_inv_def)
  from inv i pos have at: "data_idx s ! i < int (counts ! i)" "0 \<le> data_idx s ! i"
    by (simp_all add: ctl_inv_def)
  let ?s = "advance counts (sz i) i nd s"
  have here: "(if num_data_cycles ?s ! i = 0 then nat (int (counts ! i) - data_idx ?s ! i) else 0)
      \<le> (if num_data_cycles s ! i = 0 then nat (int (counts ! i) - data_idx s ! i) else 0)"
    unfolding advance_fields [OF len(1)] using len at pos by auto
  have strict: "(if num_data_cycles ?s ! i = 0 then nat (int (counts ! i) - data_idx ?s ! i) else 0)
      < (if num_data_cycles s ! i = 0 then nat (int (counts ! i) - data_idx s ! i) else 0)"
    if "num_data_cycles s ! i = 0"
    unfolding advance_fields [OF len(1)] using len at pos that by auto
  show "remaining counts ?s \<le> remaining counts s"
    unfolding remaining_split [OF i] advance_rest [OF len(1)] using here by simp
  show "remaining counts ?s < remaining counts s" if "num_data_cycles s ! i = 0"
    unfolding remaining_split [OF i] advance_rest [OF len(1)] using strict [OF that] by simp
qed

lemma advance_cycles_other:
  assumes "i < length (data_idx s)" and "j \<noteq> i"
  shows "num_data_cycles (advance counts sz i nd s) ! j = num_data_cycles s ! j"
  unfolding advance_fields [OF assms(1)] using assms(2) by simp


lemma min_list_zero:
  assumes "i < length xs" and "xs ! i = (0 :: nat)"
  shows "min_list xs = 0"
proof -
  from assms have "xs \<noteq> []" and "0 \<in> set xs"
    by (auto simp: in_set_conv_nth)
  then have "Min (set xs) = 0"
    by (metis List.finite_set Min_le le_zero_eq)
  with \<open>xs \<noteq> []\<close> show ?thesis
    by (simp add: min_list_Min)
qed

lemma min_list_pos:
  assumes "xs \<noteq> []" and "0 < min_list xs" and "i < length xs"
  shows "0 < (xs ! i :: nat)"
  using assms min_list_zero [of i xs] by (cases "xs ! i = 0") simp_all

lemma min_list_zero_ex:
  assumes "xs \<noteq> []" and "min_list xs = (0 :: nat)"
  shows "\<exists>i<length xs. xs ! i = 0"
proof -
  from assms have "Min (set xs) = 0"
    by (simp add: min_list_Min)
  with assms(1) have "0 \<in> set xs"
    by (metis List.finite_set Min_in set_empty)
  then show ?thesis
    by (simp add: in_set_conv_nth)
qed

lemma skip_ctl_inv [simp]: "ctl_inv counts sz (s\<lparr>skipped := x\<rparr>) = ctl_inv counts sz s"
  by (simp add: ctl_inv_def)

lemma skip_remaining [simp]: "remaining counts (s\<lparr>skipped := x\<rparr>) = remaining counts s"
  by (simp add: remaining_def cong: if_cong)

lemma visit_control:
  assumes "visit counts N b ld order s = Inr s'"
    and "ctl_inv counts (\<lambda>i. index_batch_size (counts ! i) N b) s"
  shows "ctl_inv counts (\<lambda>i. index_batch_size (counts ! i) N b) s' \<and>
     ((\<forall>i<length counts. 1 \<le> index_batch_size (counts ! i) N b) \<longrightarrow>
        remaining counts s' \<le> remaining counts s \<and>
        ((\<exists>i\<in>set order. i < length counts \<and> num_data_cycles s ! i = 0) \<longrightarrow>
           remaining counts s' < remaining counts s))"
  using assms
proof (induction order arbitrary: s)
  case Nil
  then show ?case by simp
next
  case (Cons j rest)
  let ?sz = "\<lambda>i. index_batch_size (counts ! i) N b"
  from Cons.prems(1) have j: "j < length counts"
    by (auto split: if_splits)
  show ?case
  proof (cases "0 < num_data_cycles s ! j \<and> \<not> skipped s ! j")
    case True
    with Cons.prems j have "visit counts N b ld rest (s\<lparr>skipped := (skipped s)[j := True]\<rparr>) = Inr s'"
      by simp
    from Cons.IH [OF this] Cons.prems(2) True show ?thesis
      by auto
  next
    case False
    let ?s = "advance counts (?sz j) j"
    from False Cons.prems(1) j obtain nd where
      rest: "(if 0 < min_list (num_data_cycles (?s nd s)) then Inr (?s nd s)
              else visit counts N b ld rest (?s nd s)) = Inr s'"
      by (auto simp: bnd_eq_Inr Let_def)
    have inv: "ctl_inv counts ?sz (?s nd s)"
      using Cons.prems(2) j by (rule advance_ctl_inv)
    from Cons.prems(2) j have len: "j < length (data_idx s)" "length (num_data_cycles s) = length counts"
      by (simp_all add: ctl_inv_def)
    from inv have len': "length (num_data_cycles (?s nd s)) = length counts"
      by (simp add: ctl_inv_def)
    show ?thesis
    proof (cases "0 < min_list (num_data_cycles (?s nd s))")
      case True
      with rest have s': "s' = ?s nd s"
        by simp
      have "remaining counts s' \<le> remaining counts s \<and>
        ((\<exists>i\<in>set (j # rest). i < length counts \<and> num_data_cycles s ! i = 0) \<longrightarrow>
           remaining counts s' < remaining counts s)"
        if pos: "\<forall>i<length counts. 1 \<le> ?sz i"
      proof (intro conjI impI)
        from pos j have pj: "1 \<le> ?sz j"
          by simp
        show "remaining counts s' \<le> remaining counts s"
          unfolding s' using Cons.prems(2) j pj by (rule advance_remaining(1))
        assume "\<exists>i\<in>set (j # rest). i < length counts \<and> num_data_cycles s ! i = 0"
        then obtain i where i: "i < length counts" "num_data_cycles s ! i = 0"
          by blast
        have "i = j"
        proof (rule ccontr)
          assume "i \<noteq> j"
          with i len have "num_data_cycles (?s nd s) ! i = 0"
            by (simp add: advance_cycles_other)
          with i len' have "min_list (num_data_cycles (?s nd s)) = 0"
            by (intro min_list_zero [of i]) simp_all
          with True show False
            by simp
        qed
        with i show "remaining counts s' < remaining counts s"
          unfolding s' using advance_remaining(2) [OF Cons.prems(2) j pj] by simp
      qed
      with inv s' show ?thesis
        by simp
    next
      case False
      with rest have v: "visit counts N b ld rest (?s nd s) = Inr s'"
        by simp
      note IH = Cons.IH [OF v inv]
      have "remaining counts s' \<le> remaining counts s \<and>
        ((\<exists>i\<in>set (j # rest). i < length counts \<and> num_data_cycles s ! i = 0) \<longrightarrow>
           remaining counts s' < remaining counts s)"
        if pos: "\<forall>i<length counts. 1 \<le> ?sz i"
      proof (intro conjI impI)
        from pos j have pj: "1 \<le> ?sz j"
          by simp
        note le = advance_remaining(1) [OF Cons.prems(2) j pj, of nd]
        from IH pos le show "remaining counts s' \<le> remaining counts s"
          by simp
        assume "\<exists>i\<in>set (j # rest). i < length counts \<and> num_data_cycles s ! i = 0"
        then obtain i where i: "i \<in> set (j # rest)" "i < length counts" "num_data_cycles s ! i = 0"
          by blast
        show "remaining counts s' < remaining counts s"
        proof (cases "i = j")
          case True
          with i advance_remaining(2) [OF Cons.prems(2) j pj, of nd]
          have "remaining counts (?s nd s) < remaining counts s"
            by simp
          with IH pos show ?thesis
            by simp
        next
          case False
          with i len have "i \<in> set rest" "num_data_cycles (?s nd s) ! i = 0"
            by (simp_all add: advance_cycles_other)
          with IH pos i(2) have "remaining counts s' < remaining counts (?s nd s)"
            by blast
          with le show ?thesis
            by simp
        qed
      qed
      with IH show ?thesis
        by simp
    qed
  qed
qed


section \<open>The classes\<close>

lemma length_rows_where: "length (rows_where (\<lambda>l. l = u) xs) = count_list xs u"
proof -
  have "length (rows_where (\<lambda>l. l = u) xs) = length (filter (\<lambda>l. l = u) (map (\<lambda>i. xs ! i) [0..<length xs]))"
    unfolding rows_where_def by (simp add: length_filter_map comp_def)
  also have "\<dots> = length (filter (\<lambda>l. l = u) xs)"
    by (simp only: map_nth)
  also have "\<dots> = count_list xs u"
    by (induction xs) simp_all
  finally show ?thesis .
qed

lemma unique_parts:
  "set (fst (unique xs)) = set xs" "distinct (fst (unique xs))"
  "snd (unique xs) = map (count_list xs) (fst (unique xs))"
  by (simp_all add: unique_def Let_def)

lemma class_rows_length: "length (class_rows l) = length (counts_label_ids l)"
  by (cases l) (simp_all add: unique_parts)

lemma unique_counts_nth:
  assumes "i < length (snd (unique xs))"
  shows "snd (unique xs) ! i = length (map (\<lambda>u. rows_where (\<lambda>l. l = u) xs) (fst (unique xs)) ! i)"
    and "0 < snd (unique xs) ! i"
proof -
  from assms have i: "i < length (fst (unique xs))"
    by (simp add: unique_parts)
  then have "fst (unique xs) ! i \<in> set xs"
    using unique_parts(1) [of xs] nth_mem by blast
  then have pos: "0 < count_list xs (fst (unique xs) ! i)"
    using count_list_0_iff [of xs] by (metis gr0I)
  from i show "snd (unique xs) ! i = length (map (\<lambda>u. rows_where (\<lambda>l. l = u) xs) (fst (unique xs)) ! i)"
    by (simp add: unique_parts length_rows_where)
  from i pos show "0 < snd (unique xs) ! i"
    by (simp add: unique_parts)
qed

lemma class_rows_counts:
  assumes "i < length (counts_label_ids l)"
  shows "counts_label_ids l ! i = length (class_rows l ! i)" and "0 < counts_label_ids l ! i"
proof -
  show "counts_label_ids l ! i = length (class_rows l ! i)"
  proof (cases l)
    case (Vals xs)
    with assms unique_counts_nth(1) [of i xs] show ?thesis by simp
  next
    case (Strs ss)
    with assms unique_counts_nth(1) [of i ss] show ?thesis by simp
  qed
  show "0 < counts_label_ids l ! i"
  proof (cases l)
    case (Vals xs)
    with assms unique_counts_nth(2) [of i xs] show ?thesis by simp
  next
    case (Strs ss)
    with assms unique_counts_nth(2) [of i ss] show ?thesis by simp
  qed
qed

lemma union_rows_where:
  assumes "set us = set xs"
  shows "\<Union> (set ` set (map (\<lambda>u. rows_where (\<lambda>l. l = u) xs) us)) = {..<length xs}"
  using assms by (auto simp: set_rows_where)

lemma class_rows_union: "\<Union> (set ` set (class_rows l)) = {..<num_ids l}"
  by (cases l) (simp_all only: class_rows.simps num_ids.simps union_rows_where [OF unique_parts(1)])

lemma data_for_ids_mask:
  assumes "data_for_ids (take_mask (map P xs)) t = Inr ct"
  shows "ct = map_columns (select_rows (rows_where P xs)) t"
    and "list_all (\<lambda>c. is_array c \<and> num_rows c = length xs) (columns t)"
proof -
  from assms obtain cs where cs: "all_ok (map (take_mask (map P xs)) (columns t)) = Inr cs"
    and ct: "ct = regroup t cs"
    by (auto simp: data_for_ids_def bnd_eq_Inr)
  from masked_columns(3) [OF cs] ct show "ct = map_columns (select_rows (rows_where P xs)) t"
    by (simp add: regroup_map_columns)
  from masked_columns(2) [OF cs] show "list_all (\<lambda>c. is_array c \<and> num_rows c = length xs) (columns t)" .
qed

lemma split_by_masks:
  assumes "all_ok (map (\<lambda>ids. data_for_ids (take_mask ids) t) (map (\<lambda>u. map (\<lambda>l. l = u) xs) us)) = Inr ld"
  shows "length ld = length us"
    and "i < length us \<Longrightarrow> ld ! i = map_columns (select_rows (rows_where (\<lambda>l. l = us ! i) xs)) t"
    and "us \<noteq> [] \<Longrightarrow> list_all (\<lambda>c. is_array c \<and> num_rows c = length xs) (columns t)"
proof -
  show len: "length ld = length us"
    using all_ok_map_Inr(1) [OF assms] by simp
  have each: "data_for_ids (take_mask (map (\<lambda>l. l = us ! i) xs)) t = Inr (ld ! i)" if "i < length us" for i
    using all_ok_map_Inr(2) [OF assms, of i] that by simp
  show "ld ! i = map_columns (select_rows (rows_where (\<lambda>l. l = us ! i) xs)) t" if "i < length us"
    using data_for_ids_mask(1) [OF each [OF that]] .
  show "list_all (\<lambda>c. is_array c \<and> num_rows c = length xs) (columns t)" if "us \<noteq> []"
  proof -
    from that have "0 < length us" by simp
    from data_for_ids_mask(2) [OF each [OF this]] show ?thesis .
  qed
qed

lemma split_by_label_ids_Inr:
  assumes "split_by_label_ids l t = Inr ld"
  shows "length ld = length (class_rows l)"
    and "i < length (class_rows l) \<Longrightarrow> ld ! i = map_columns (select_rows (class_rows l ! i)) t"
    and "class_rows l \<noteq> [] \<Longrightarrow> list_all (\<lambda>c. is_array c \<and> num_rows c = num_ids l) (columns t)"
proof -
  have "length ld = length (class_rows l) \<and>
      (i < length (class_rows l) \<longrightarrow> ld ! i = map_columns (select_rows (class_rows l ! i)) t) \<and>
      (class_rows l \<noteq> [] \<longrightarrow> list_all (\<lambda>c. is_array c \<and> num_rows c = num_ids l) (columns t))"
  proof (cases l)
    case (Vals xs)
    with assms have ok: "all_ok (map (\<lambda>ids. data_for_ids (take_mask ids) t)
        (map (\<lambda>u. map (\<lambda>l. l = u) xs) (fst (unique xs)))) = Inr ld"
      by (simp add: split_by_label_ids_def)
    from split_by_masks [OF ok] Vals show ?thesis
      by simp
  next
    case (Strs ss)
    with assms have ok: "all_ok (map (\<lambda>ids. data_for_ids (take_mask ids) t)
        (map (\<lambda>u. map (\<lambda>l. l = u) ss) (fst (unique ss)))) = Inr ld"
      by (simp add: split_by_label_ids_def)
    from split_by_masks [OF ok] Strs show ?thesis
      by simp
  qed
  then show "length ld = length (class_rows l)"
    and "i < length (class_rows l) \<Longrightarrow> ld ! i = map_columns (select_rows (class_rows l ! i)) t"
    and "class_rows l \<noteq> [] \<Longrightarrow> list_all (\<lambda>c. is_array c \<and> num_rows c = num_ids l) (columns t)"
    by simp_all
qed


section \<open>The slices\<close>

lemma py_slice_map: "py_slice a b (map f xs) = map f (py_slice a b xs)"
  by (simp add: py_slice_def Let_def take_map drop_map)

lemma set_py_slice: "set (py_slice a b xs) \<subseteq> set xs"
  unfolding py_slice_def Let_def by (meson set_drop_subset set_take_subset subset_trans)

lemma slice_select_rows: "slice_rows a b (select_rows ids v) = Inr (select_rows (py_slice a b ids) v)"
  by (simp add: select_rows_def py_slice_map)

lemma all_ok_map_total: "all_ok (map (\<lambda>v. Inr (f v)) vs) = Inr (map f vs)"
  by (induction vs) simp_all

lemma add_to_columns_empty: "add_to_columns [] sl = map (\<lambda>v. [v]) sl"
  by (induction sl) simp_all

lemma add_to_columns_map: "add_to_columns (map h vs) (map g vs) = map (\<lambda>v. h v @ [g v]) vs"
  by (induction vs) simp_all

lemma update_fresh:
  assumes "k \<notin> fst ` set P"
  shows "AList.update k x P = P @ [(k, x)]"
  using assms by (induction P) auto

lemma update_middle:
  assumes "k \<notin> fst ` set P"
  shows "AList.update k x (P @ (k, y) # R) = P @ (k, x) # R"
  using assms by (induction P) auto

lemma map_of_fresh:
  assumes "k \<notin> fst ` set P"
  shows "map_of P k = None"
  using assms by (simp add: map_of_eq_None_iff)

lemma map_of_middle:
  assumes "k \<notin> fst ` set P"
  shows "map_of (P @ (k, y) # R) k = Some y"
  using assms by (induction P) auto

lemma append_slices_step:
  assumes "vs \<noteq> []"
  shows "append_slices a b ((k, map (select_rows ids) vs) # items) nd =
     append_slices a b items
       (AList.update k
          (add_to_columns (case map_of nd k of None \<Rightarrow> [] | Some cols \<Rightarrow> cols)
             (map (select_rows (py_slice a b ids)) vs)) nd)"
proof -
  have sl: "all_ok (map (slice_rows a b) (map (select_rows ids) vs))
      = Inr (map (select_rows (py_slice a b ids)) vs)"
    by (simp add: comp_def slice_select_rows all_ok_map_total)
  from assms show ?thesis
    by (simp only: append_slices.simps sl bnd_Inr map_is_Nil_conv if_False)
qed

lemma append_slices_fresh:
  assumes "distinct (map fst T)" and "\<forall>kv\<in>set T. snd kv \<noteq> []" and "fst ` set T \<inter> fst ` set P = {}"
  shows "append_slices a b (map (\<lambda>(k, vs). (k, map (select_rows ids) vs)) T) P =
     Inr (P @ map (\<lambda>(k, vs). (k, map (\<lambda>v. [select_rows (py_slice a b ids) v]) vs)) T)"
  using assms
proof (induction T arbitrary: P)
  case Nil
  then show ?case by simp
next
  case (Cons kv T)
  obtain k vs where kv: "kv = (k, vs)"
    by (cases kv)
  from Cons.prems kv have k: "k \<notin> fst ` set P" and vs: "vs \<noteq> []"
    by auto
  let ?F = "\<lambda>(k, vs). (k, map (select_rows ids) vs)"
  let ?x = "map (\<lambda>v. [select_rows (py_slice a b ids) v]) vs"
  have "append_slices a b (map ?F (kv # T)) P = append_slices a b (map ?F T) (P @ [(k, ?x)])"
    unfolding kv
    by (simp add: append_slices_step [OF vs] map_of_fresh [OF k] update_fresh [OF k]
        add_to_columns_empty comp_def del: append_slices.simps)
  moreover have "fst ` set T \<inter> fst ` set (P @ [(k, ?x)]) = {}"
    using Cons.prems kv by auto
  with Cons.IH [of "P @ [(k, ?x)]"] Cons.prems
  have "append_slices a b (map ?F T) (P @ [(k, ?x)]) =
     Inr ((P @ [(k, ?x)]) @ map (\<lambda>(k, vs). (k, map (\<lambda>v. [select_rows (py_slice a b ids) v]) vs)) T)"
    by simp
  ultimately show ?case
    by (simp add: kv)
qed

lemma append_slices_existing:
  assumes "distinct (map fst T)" and "\<forall>kv\<in>set T. snd kv \<noteq> []" and "fst ` set T \<inter> fst ` set P = {}"
  shows "append_slices a b (map (\<lambda>(k, vs). (k, map (select_rows ids) vs)) T)
       (P @ map (\<lambda>(k, vs). (k, map h vs)) T) =
     Inr (P @ map (\<lambda>(k, vs). (k, map (\<lambda>v. h v @ [select_rows (py_slice a b ids) v]) vs)) T)"
  using assms
proof (induction T arbitrary: P)
  case Nil
  then show ?case by simp
next
  case (Cons kv T)
  obtain k vs where kv: "kv = (k, vs)"
    by (cases kv)
  from Cons.prems kv have k: "k \<notin> fst ` set P" and vs: "vs \<noteq> []"
    by auto
  let ?F = "\<lambda>(k, vs). (k, map (select_rows ids) vs)"
  let ?x = "map (\<lambda>v. h v @ [select_rows (py_slice a b ids) v]) vs"
  let ?R = "map (\<lambda>(k, vs). (k, map h vs)) T"
  have "append_slices a b (map ?F (kv # T)) (P @ map (\<lambda>(k, vs). (k, map h vs)) (kv # T))
      = append_slices a b (map ?F T) ((P @ [(k, ?x)]) @ ?R)"
    unfolding kv
    by (simp only: list.map case_prod_conv append_slices_step [OF vs] map_of_middle [OF k]
        update_middle [OF k] option.case add_to_columns_map append.assoc append_Cons append_Nil)
  moreover have "fst ` set T \<inter> fst ` set (P @ [(k, ?x)]) = {}"
    using Cons.prems kv by auto
  with Cons.IH [of "P @ [(k, ?x)]"] Cons.prems
  have "append_slices a b (map ?F T) ((P @ [(k, ?x)]) @ ?R) =
     Inr ((P @ [(k, ?x)]) @ map (\<lambda>(k, vs). (k, map (\<lambda>v. h v @ [select_rows (py_slice a b ids) v]) vs)) T)"
    by simp
  ultimately show ?case
    by (simp add: kv)
qed

lemma data_rep_step:
  assumes rep: "data_rep t chunks nd" and dist: "distinct (map fst t)"
  shows "\<exists>nd'. append_slices a b (map_columns (select_rows ids) t) nd = Inr nd' \<and>
           data_rep t (chunks @ [py_slice a b ids]) nd'"
proof -
  let ?T = "filter (\<lambda>(k, vs). vs \<noteq> []) t"
  have T: "distinct (map fst ?T)" "\<forall>kv\<in>set ?T. snd kv \<noteq> []"
    using dist by (auto simp: distinct_map_filter)
  show ?thesis
  proof (cases "chunks = []")
    case True
    with rep have "nd = []"
      by (simp add: data_rep_def)
    with append_slices_fresh [OF T, of "[]" a b ids] True show ?thesis
      by (simp add: data_rep_def map_columns_def)
  next
    case False
    with rep have "nd = map (\<lambda>(k, vs). (k, map (\<lambda>v. map (\<lambda>ch. select_rows ch v) chunks) vs)) ?T"
      by (simp add: data_rep_def map_columns_def)
    with append_slices_existing [OF T, of "[]" a b ids "\<lambda>v. map (\<lambda>ch. select_rows ch v) chunks"]
    show ?thesis
      by (simp add: data_rep_def map_columns_def)
  qed
qed


lemma py_slice_forward:
  assumes "0 \<le> a" and "a < int (length xs)" and "0 \<le> n"
  shows "py_slice a (a + n) xs = take (nat n) (drop (nat a) xs)"
proof -
  from assms have lo: "clip_bound a (length xs) = nat a"
    by (simp add: clip_bound_def)
  from assms have hi: "clip_bound (a + n) (length xs) = min (nat (a + n)) (length xs)"
    by (simp add: clip_bound_def)
  from assms have na: "nat (a + n) = nat a + nat n"
    by (simp add: nat_add_distrib)
  have "min (nat a + nat n) (length xs) - nat a = min (nat n) (length xs - nat a)"
    by arith
  then have "take (min (nat (a + n)) (length xs) - nat a) (drop (nat a) xs)
      = take (min (nat n) (length xs - nat a)) (drop (nat a) xs)"
    unfolding na by (simp only:)
  also have "\<dots> = take (nat n) (drop (nat a) xs)"
    by (simp add: min_def)
  finally show ?thesis
    unfolding py_slice_def Let_def lo hi .
qed

lemma covered_skip [simp]: "covered cls out (s\<lparr>skipped := x\<rparr>) = covered cls out s"
  by (simp add: covered_def)

lemma covered_step:
  assumes cov: "covered cls out s"
    and inv: "ctl_inv counts sz s"
    and i: "i < length counts"
    and len: "length cls = length counts"
    and cnt: "counts ! i = length (cls ! i)"
  shows "covered cls (out @ py_slice (data_idx s ! i) (data_idx s ! i + sz i) (cls ! i))
           (advance counts (sz i) i nd s)"
proof -
  let ?a = "data_idx s ! i"
  let ?sl = "py_slice ?a (?a + sz i) (cls ! i)"
  from inv i have li: "i < length (data_idx s)" "i < length (num_data_cycles s)"
    by (simp_all add: ctl_inv_def)
  from inv i have at: "?a < int (counts ! i)" "1 \<le> sz i \<longrightarrow> 0 \<le> ?a"
    "sz i < 1 \<longrightarrow> ?a \<le> 0 \<and> num_data_cycles s ! i = 0"
    by (simp_all add: ctl_inv_def)
  have old: "(0 < num_data_cycles s ! j \<longrightarrow> set (cls ! j) \<subseteq> set out) \<and>
      set (take (nat (data_idx s ! j)) (cls ! j)) \<subseteq> set out" if "j < length cls" for j
    using cov that by (simp add: covered_def)
  have sub: "set ?sl \<subseteq> set (cls ! i)"
    by (rule set_py_slice)
  have here: "(0 < num_data_cycles (advance counts (sz i) i nd s) ! i \<longrightarrow>
        set (cls ! i) \<subseteq> set out \<union> set ?sl) \<and>
      set (take (nat (data_idx (advance counts (sz i) i nd s) ! i)) (cls ! i)) \<subseteq> set out \<union> set ?sl"
  proof (cases "1 \<le> sz i")
    case True
    with at cnt have sl: "?sl = take (nat (sz i)) (drop (nat ?a) (cls ! i))"
      by (intro py_slice_forward) simp_all
    from True at have a0: "0 \<le> ?a"
      by simp
    show ?thesis
    proof (cases "int (counts ! i) \<le> ?a + sz i")
      case True
      with a0 cnt have "length (cls ! i) - nat ?a \<le> nat (sz i)"
        by linarith
      then have "?sl = drop (nat ?a) (cls ! i)"
        unfolding sl by simp
      then have "set (cls ! i) = set (take (nat ?a) (cls ! i)) \<union> set ?sl"
        by (metis append_take_drop_id set_append)
      with old [of i] i len True li show ?thesis
        unfolding advance_fields [OF li(1)] by auto
    next
      case False
      have "take (nat (?a + sz i)) (cls ! i) = take (nat ?a) (cls ! i) @ ?sl"
        unfolding sl using a0 \<open>1 \<le> sz i\<close> by (simp add: nat_add_distrib take_add)
      with old [of i] i len False li show ?thesis
        unfolding advance_fields [OF li(1)] by auto
    qed
  next
    case False
    with at cnt have "\<not> int (counts ! i) \<le> ?a + sz i" "?a + sz i \<le> 0" "num_data_cycles s ! i = 0"
      by simp_all
    with li show ?thesis
      unfolding advance_fields [OF li(1)] by simp
  qed
  have other: "(0 < num_data_cycles (advance counts (sz i) i nd s) ! j \<longrightarrow>
        set (cls ! j) \<subseteq> set out \<union> set ?sl) \<and>
      set (take (nat (data_idx (advance counts (sz i) i nd s) ! j)) (cls ! j)) \<subseteq> set out \<union> set ?sl"
    if "j < length cls" "j \<noteq> i" for j
    using old [OF that(1)] that(2) unfolding advance_fields [OF li(1)] by auto
  have "set out \<union> set ?sl \<subseteq> \<Union> (set ` set cls)"
  proof -
    from i len have "cls ! i \<in> set cls"
      by simp
    with sub have "set ?sl \<subseteq> \<Union> (set ` set cls)"
      by blast
    with cov show ?thesis
      by (simp add: covered_def)
  qed
  with here other show ?thesis
    unfolding covered_def set_append by (metis)
qed


section \<open>One round, and the result\<close>

lemma visit_data:
  assumes v: "visit counts N b ld order s = Inr s'"
    and inv: "ctl_inv counts (\<lambda>i. index_batch_size (counts ! i) N b) s"
    and rep: "data_rep t chunks (new_data s)"
    and cov: "covered cls (concat chunks) s"
    and len: "length cls = length counts"
    and cnt: "\<forall>i<length counts. counts ! i = length (cls ! i)"
    and ld: "\<forall>i<length counts. ld ! i = map_columns (select_rows (cls ! i)) t"
    and dist: "distinct (map fst t)"
  shows "\<exists>chunks'. data_rep t chunks' (new_data s') \<and> covered cls (concat chunks') s'"
  using v inv rep cov
proof (induction order arbitrary: s chunks)
  case Nil
  then show ?case by auto
next
  case (Cons j rest)
  let ?sz = "\<lambda>i. index_batch_size (counts ! i) N b"
  from Cons.prems(1) have j: "j < length counts"
    by (auto split: if_splits)
  show ?case
  proof (cases "0 < num_data_cycles s ! j \<and> \<not> skipped s ! j")
    case True
    with Cons.prems j have "visit counts N b ld rest (s\<lparr>skipped := (skipped s)[j := True]\<rparr>) = Inr s'"
      by simp
    from Cons.IH [OF this, of chunks] Cons.prems show ?thesis
      by simp
  next
    case False
    let ?a = "data_idx s ! j"
    let ?chunk = "py_slice ?a (?a + ?sz j) (cls ! j)"
    from data_rep_step [OF Cons.prems(3) dist, of ?a "?a + ?sz j" "cls ! j"] ld j
    obtain nd where nd: "append_slices ?a (?a + ?sz j) (ld ! j) (new_data s) = Inr nd"
      and rep': "data_rep t (chunks @ [?chunk]) nd"
      by auto
    let ?s = "advance counts (?sz j) j nd s"
    from False Cons.prems(1) j nd have
      rest: "(if 0 < min_list (num_data_cycles ?s) then Inr ?s
              else visit counts N b ld rest ?s) = Inr s'"
      by (auto simp: Let_def)
    have inv': "ctl_inv counts ?sz ?s"
      using Cons.prems(2) j by (rule advance_ctl_inv)
    from Cons.prems(2) j have "j < length (data_idx s)"
      by (simp add: ctl_inv_def)
    then have rep'': "data_rep t (chunks @ [?chunk]) (new_data ?s)"
      using rep' by (simp add: advance_fields)
    have cov': "covered cls (concat (chunks @ [?chunk])) ?s"
      using covered_step [OF Cons.prems(4) Cons.prems(2) j len, of nd] cnt j by simp
    show ?thesis
    proof (cases "0 < min_list (num_data_cycles ?s)")
      case True
      with rest rep'' cov' show ?thesis
        by auto
    next
      case False
      with rest have "visit counts N b ld rest ?s = Inr s'"
        by simp
      from Cons.IH [OF this inv' rep'' cov'] show ?thesis .
    qed
  qed
qed

lemma columns_map_columns: "concat (map snd (map_columns f t)) = map f (columns t)"
  by (induction t) (auto simp: map_columns_def columns_def)

lemma regroup_same_structure: "regroup (map_columns g t) xs = regroup t xs"
proof (induction t arbitrary: xs)
  case Nil
  then show ?case by (simp add: map_columns_def)
next
  case (Cons kv t)
  obtain k vs where kv: "kv = (k, vs)"
    by (cases kv)
  from Cons [unfolded map_columns_def] show ?case
    by (simp add: kv map_columns_def)
qed

lemma concatenate_select_rows:
  assumes "chunks \<noteq> []"
  shows "concatenate (map (\<lambda>ch. select_rows ch v) chunks) = Inr (select_rows (concat chunks) v)"
proof -
  from assms obtain c cs where "chunks = c # cs"
    by (cases chunks) auto
  moreover have "list_all (same_trailing (trailing v)) (map (\<lambda>ch. select_rows ch v) cs)"
    by (simp add: list_all_iff select_rows_def)
  moreover have "concat (map rows (map (\<lambda>ch. select_rows ch v) cs))
      = map (\<lambda>i. rows v ! i) (concat cs)"
    by (simp add: select_rows_def comp_def map_concat)
  ultimately show ?thesis
    by (simp add: select_rows_def)
qed

lemma final_data_rep:
  assumes "data_rep t chunks nd" and "chunks \<noteq> []"
  shows "final_data nd = Inr (map_columns (select_rows (concat chunks)) t)"
proof -
  from assms have nd: "nd = map_columns (\<lambda>v. map (\<lambda>ch. select_rows ch v) chunks) t"
    by (simp add: data_rep_def)
  have "all_ok (map concatenate (concat (map snd nd)))
      = Inr (map (select_rows (concat chunks)) (columns t))"
    unfolding nd columns_map_columns
    by (simp add: comp_def concatenate_select_rows [OF assms(2)] all_ok_map_total)
  then show ?thesis
    unfolding final_data_def
    by (simp add: nd regroup_same_structure regroup_map_columns)
qed


lemma label_key_column:
  assumes "check_label_key key t = Inr u" and "label_column key t = Inr labels"
  shows "map_of t key = Some [labels]"
proof -
  from assms obtain cs where cs: "map_of t key = Some cs" "\<not> 1 < length cs" "nth_err cs 0 = Inr labels"
    by (auto simp: check_label_key_def label_column_def split: option.splits if_splits)
  then have "cs = [labels]"
    by (cases cs) (auto simp: nth_err_def split: if_splits)
  with cs show ?thesis by simp
qed

lemma initial_ctl_inv:
  "ctl_inv (counts_label_ids l) sz
     \<lparr>data_idx = replicate (length (counts_label_ids l)) 0,
      num_data_cycles = replicate (length (counts_label_ids l)) 0,
      skipped = replicate (length (counts_label_ids l)) False,
      new_data = nd\<rparr>"
  by (simp add: ctl_inv_def class_rows_counts(2))

lemma in_columns:
  assumes "map_of t key = Some cs" and "c \<in> set cs"
  shows "c \<in> set (columns t)"
proof -
  from assms(1) have "(key, cs) \<in> set t"
    by (rule map_of_SomeD)
  with assms(2) show ?thesis
    by (force simp: columns_def)
qed

text \<open>
  Claim C1, as the code has it. When \<open>balance\<close> returns on a table with distinct keys and
  \<open>N\<close> examples, the new table is the old one read at a sequence of row numbers, the same
  sequence for every column of every key: every row number below \<open>N\<close> occurs in the
  sequence at least once, and nothing else occurs in it. So no row is dropped and the alignment
  of the columns is kept; a row may occur more than once, and the number of examples does not
  go down.
\<close>

theorem balance_covers_every_row:
  assumes ret: "balance perms to_str batch_size shuffle key t = Some (Inr t')"
    and dist: "distinct (map fst t)"
  shows "\<exists>N ids. get_number_of_examples t = Inr N \<and>
           list_all (\<lambda>c. is_array c \<and> num_rows c = N) (columns t) \<and>
           set ids = {..<N} \<and> N \<le> length ids \<and>
           t' = map_columns (select_rows ids) t"
proof -
  from ret obtain u labels label_ids ld N s where
    chk: "check_label_key key t = Inr u"
    and lc: "label_column key t = Inr labels"
    and ids: "create_label_ids to_str labels = Inr label_ids"
    and sp: "split_by_label_ids label_ids t = Inr ld"
    and N: "get_number_of_examples t = Inr N"
    and rounds: "balance_rounds
             (\<lambda>round. visit (counts_label_ids label_ids) N batch_size ld
                (if shuffle then perms round else [0..<length (counts_label_ids label_ids)]))
             0
             \<lparr>data_idx = replicate (length (counts_label_ids label_ids)) 0,
              num_data_cycles = replicate (length (counts_label_ids label_ids)) 0,
              skipped = replicate (length (counts_label_ids label_ids)) False,
              new_data = []\<rparr> = Some (Inr s)"
    and fin: "final_data (new_data s) = Inr t'"
    by (auto simp: balance_def Let_def split: sum.splits option.splits)
  define counts where "counts = counts_label_ids label_ids"
  define cls where "cls = class_rows label_ids"
  define sz where "sz = (\<lambda>i. index_batch_size (counts ! i) N batch_size)"
  define I where "I = (\<lambda>s :: 'a balance_state. ctl_inv counts sz s \<and>
      (\<exists>chunks. data_rep t chunks (new_data s) \<and> covered cls (concat chunks) s))"
  have len: "length cls = length counts"
    by (simp add: cls_def counts_def class_rows_length)
  have cnt: "\<forall>i<length counts. counts ! i = length (cls ! i)"
    by (simp add: cls_def counts_def class_rows_counts(1))
  have ld: "\<forall>i<length counts. ld ! i = map_columns (select_rows (cls ! i)) t"
    using split_by_label_ids_Inr(2) [OF sp] len by (simp add: cls_def)
  have init: "I \<lparr>data_idx = replicate (length counts) 0,
              num_data_cycles = replicate (length counts) 0,
              skipped = replicate (length counts) False,
              new_data = []\<rparr>"
    unfolding I_def using len
    by (auto simp: counts_def initial_ctl_inv data_rep_def covered_def intro!: exI [of _ "[]"])
  have step: "I s2" if "I s1"
    and "visit counts N batch_size ld
           (if shuffle then perms r else [0..<length counts]) s1 = Inr s2" for r s1 s2
  proof -
    from that(1) obtain chunks where c: "ctl_inv counts sz s1"
      "data_rep t chunks (new_data s1)" "covered cls (concat chunks) s1"
      by (auto simp: I_def)
    from visit_control [OF that(2) c(1) [unfolded sz_def]]
    have "ctl_inv counts sz s2"
      by (simp add: sz_def)
    moreover from visit_data [OF that(2) c(1) [unfolded sz_def] c(2) c(3) len cnt ld dist]
    have "\<exists>chunks'. data_rep t chunks' (new_data s2) \<and> covered cls (concat chunks') s2" .
    ultimately show ?thesis
      by (simp add: I_def)
  qed
  from balance_rounds_invariant [of _ 0 _ s I, OF rounds [folded counts_def] init step]
  have fin_inv: "I s" and ne: "num_data_cycles s \<noteq> []" and pos: "0 < min_list (num_data_cycles s)"
    by simp_all
  from fin_inv obtain chunks where c: "ctl_inv counts sz s"
    "data_rep t chunks (new_data s)" "covered cls (concat chunks) s"
    by (auto simp: I_def)
  from c(1) have lc': "length (num_data_cycles s) = length counts"
    by (simp add: ctl_inv_def)
  with ne have C: "0 < length counts"
    by auto
  have all_pos: "0 < num_data_cycles s ! i" if "i < length counts" for i
    using min_list_pos [OF ne pos] that lc' by simp
  have "\<Union> (set ` set cls) \<subseteq> set (concat chunks)"
  proof
    fix x
    assume "x \<in> \<Union> (set ` set cls)"
    then obtain c where "c \<in> set cls" "x \<in> set c"
      by blast
    then obtain i where i: "i < length cls" "x \<in> set (cls ! i)"
      by (metis in_set_conv_nth)
    from i(1) len have "0 < num_data_cycles s ! i"
      by (simp add: all_pos)
    moreover from c(3) i(1) have "0 < num_data_cycles s ! i \<longrightarrow> set (cls ! i) \<subseteq> set (concat chunks)"
      by (simp add: covered_def)
    ultimately show "x \<in> set (concat chunks)"
      using i(2) by blast
  qed
  with c(3) have "set (concat chunks) = \<Union> (set ` set cls)"
    unfolding covered_def by blast
  then have out: "set (concat chunks) = {..<num_ids label_ids}"
    by (simp add: cls_def class_rows_union)
  from C len cnt class_rows_counts(2) [of 0 label_ids] have "cls ! 0 \<noteq> []" "cls \<noteq> []"
    by (auto simp: counts_def)
  have "chunks \<noteq> []"
  proof
    assume "chunks = []"
    moreover from c(3) C len have "0 < num_data_cycles s ! 0 \<longrightarrow> set (cls ! 0) \<subseteq> set (concat chunks)"
      by (simp add: covered_def)
    ultimately have "set (cls ! 0) \<subseteq> {}"
      using all_pos [OF C] by simp
    with \<open>cls ! 0 \<noteq> []\<close> show False
      by simp
  qed
  from final_data_rep [OF c(2) this] fin have t': "t' = map_columns (select_rows (concat chunks)) t"
    by simp
  from split_by_label_ids_Inr(3) [OF sp] \<open>cls \<noteq> []\<close>
  have cols: "list_all (\<lambda>c. is_array c \<and> num_rows c = num_ids label_ids) (columns t)"
    by (simp add: cls_def)
  from label_key_column [OF chk lc] have "labels \<in> set (columns t)"
    by (rule in_columns) simp
  then have ne_cols: "columns t \<noteq> []"
    by auto
  from cols have arr: "list_all is_array (columns t)"
    by (simp add: list_all_iff)
  from cols ne_cols have "num_rows (hd (columns t)) = num_ids label_ids"
    and "\<not> (\<exists>a\<in>set (columns t). \<exists>b\<in>set (columns t). num_rows a \<noteq> num_rows b)"
    by (auto simp: list_all_iff)
  with get_number_of_examples_columns [OF ne_cols arr] N have NN: "N = num_ids label_ids"
    by simp
  have "N \<le> length (concat chunks)"
  proof -
    have "card (set (concat chunks)) \<le> length (concat chunks)"
      by (rule card_length)
    with out NN show ?thesis
      by simp
  qed
  with N cols out t' NN show ?thesis
    by blast
qed


theorem balance_covers_every_row_witness:
  "balance (\<lambda>r. []) str_of_int 1 False ''label''
     [(''text'', [Array [2] [[10, 11], [20, 21], [30, 31], [40, 41 :: int]]]),
      (''label'', [Array [] [[0], [1], [1], [1]]])]
   = Some (Inr [(''text'', [Array [2] [[10, 11], [20, 21], [30, 31], [10, 11], [40, 41]]]),
            (''label'', [Array [] [[0], [1], [1], [0], [1]]])]) \<and>
   distinct (map fst [(''text'', [Array [2] [[10, 11], [20, 21], [30, 31], [40, 41 :: int]]]),
      (''label'', [Array [] [[0], [1], [1], [1]]])]) \<and>
   (\<exists>N ids. get_number_of_examples [(''text'', [Array [2] [[10, 11], [20, 21], [30, 31], [40, 41 :: int]]]),
      (''label'', [Array [] [[0], [1], [1], [1]]])] = Inr N \<and>
      set ids = {..<N} \<and> N \<le> length ids \<and>
      [(''text'', [Array [2] [[10, 11], [20, 21], [30, 31], [10, 11], [40, 41]]]),
            (''label'', [Array [] [[0], [1], [1], [0], [1]]])]
      = map_columns (select_rows ids) [(''text'', [Array [2] [[10, 11], [20, 21], [30, 31], [40, 41 :: int]]]),
      (''label'', [Array [] [[0], [1], [1], [1]]])])"
proof -
  have ok: "balance (\<lambda>r. []) str_of_int 1 False ''label''
     [(''text'', [Array [2] [[10, 11], [20, 21], [30, 31], [40, 41 :: int]]]),
      (''label'', [Array [] [[0], [1], [1], [1]]])]
   = Some (Inr [(''text'', [Array [2] [[10, 11], [20, 21], [30, 31], [10, 11], [40, 41]]]),
            (''label'', [Array [] [[0], [1], [1], [0], [1]]])])"
    by code_simp
  have dist: "distinct (map fst [(''text'', [Array [2] [[10, 11], [20, 21], [30, 31], [40, 41 :: int]]]),
      (''label'', [Array [] [[0], [1], [1], [1]]])])"
    by simp
  from balance_covers_every_row [OF ok dist] ok dist show ?thesis
    by blast
qed

text \<open>
  The table of the specification's own test: three classes with 1, 2 and 10 examples, here with
  batch size 4. The class with one example is read a second time in the third round, and the
  result has 14 examples.
\<close>

theorem balance_counterexample:
  "balance (\<lambda>r. []) str_of_int 4 False ''label''
     [(''label'', [Array [] [[0], [1], [1], [2], [2], [2], [2], [2], [2], [2], [2], [2], [2 :: int]]])]
   = Some (Inr [(''label'',
        [Array [] [[0], [1], [2], [2], [2], [2], [1], [2], [2], [2], [2], [0], [2], [2]]])]) \<and>
   get_number_of_examples
     [(''label'', [Array [] [[0], [1], [1], [2], [2], [2], [2], [2], [2], [2], [2], [2], [2 :: int]]])]
   = Inr 13 \<and>
   get_number_of_examples
     [(''label'', [Array [] [[0], [1], [2], [2], [2], [2], [1], [2], [2], [2], [2], [0], [2], [2 :: int]]])]
   = Inr 14"
  by code_simp


section \<open>Termination of balancing\<close>

lemma index_batch_size_pos:
  assumes "0 \<le> batch_size"
  shows "1 \<le> index_batch_size c n batch_size"
proof -
  from assms have "0 \<le> int c * batch_size"
    by simp
  then have "0 \<le> trunc_div (int c * batch_size) (int n)"
    by (simp add: trunc_div_def pos_imp_zdiv_nonneg_iff div_int_pos_iff)
  then show ?thesis
    by (simp add: index_batch_size_def)
qed

lemma length_counts_label_ids: "length (counts_label_ids l) = distinct_labels l"
  by (cases l) (simp_all add: unique_def Let_def distinct_labels_def length_remdups_card_conv)

lemma balance_rounds_visit_terminates:
  assumes pos: "\<forall>i<length counts. 1 \<le> index_batch_size (counts ! i) N b"
    and all: "\<forall>r. \<forall>i<length counts. i \<in> set (order r)"
    and inv: "ctl_inv counts (\<lambda>i. index_batch_size (counts ! i) N b) s"
  shows "\<exists>res. balance_rounds (\<lambda>r. visit counts N b ld (order r)) r0 s = Some res"
proof (rule balance_rounds_terminates [where I = "ctl_inv counts (\<lambda>i. index_batch_size (counts ! i) N b)"
      and \<mu> = "remaining counts"])
  show "ctl_inv counts (\<lambda>i. index_batch_size (counts ! i) N b) s"
    by (rule inv)
next
  fix r s s'
  assume i: "ctl_inv counts (\<lambda>i. index_batch_size (counts ! i) N b) s"
    and ne: "num_data_cycles s \<noteq> []" and z: "min_list (num_data_cycles s) = 0"
    and v: "visit counts N b ld (order r) s = Inr s'"
  from min_list_zero_ex [OF ne z] obtain j where j: "j < length (num_data_cycles s)"
    "num_data_cycles s ! j = 0"
    by blast
  from i j have jc: "j < length counts"
    by (simp add: ctl_inv_def)
  with all have "j \<in> set (order r)"
    by blast
  with visit_control [OF v i] pos j jc
  show "ctl_inv counts (\<lambda>i. index_batch_size (counts ! i) N b) s' \<and> remaining counts s' < remaining counts s"
    by blast
qed

text \<open>
  Claim C10, as the code has it. For a batch size that is not negative every slice length is at
  least 1. If, when shuffling is on, every order of the classes drawn from the random source is
  a permutation of the class indices, then \<open>balance\<close> returns on every table: with an error
  for a label key without exactly one usable column, for columns of different lengths and for
  a table without examples, and with the balanced table otherwise.
\<close>

theorem balance_terminates:
  assumes b: "0 \<le> batch_size"
    and perms: "shuffle \<longrightarrow> (\<forall>labels label_ids round.
        map_of t key = Some [labels] \<longrightarrow> create_label_ids to_str labels = Inr label_ids \<longrightarrow>
        mset (perms round) = mset [0..<distinct_labels label_ids])"
  shows "\<exists>res. balance perms to_str batch_size shuffle key t = Some res"
proof (cases "check_label_key key t")
  case (Inl e)
  then show ?thesis by (simp add: balance_def)
next
  case chk: (Inr u)
  show ?thesis
  proof (cases "label_column key t")
    case (Inl e)
    with chk show ?thesis by (simp add: balance_def)
  next
    case lc: (Inr labels)
    show ?thesis
    proof (cases "create_label_ids to_str labels")
      case (Inl e)
      with chk lc show ?thesis by (simp add: balance_def)
    next
      case ids: (Inr label_ids)
      show ?thesis
      proof (cases "split_by_label_ids label_ids t")
        case (Inl e)
        with chk lc ids show ?thesis by (simp add: balance_def)
      next
        case sp: (Inr ld)
        show ?thesis
        proof (cases "get_number_of_examples t")
          case (Inl e)
          with chk lc ids sp show ?thesis by (simp add: balance_def)
        next
          case N: (Inr N)
          let ?counts = "counts_label_ids label_ids"
          let ?order = "\<lambda>round. if shuffle then perms round else [0..<length ?counts]"
          have all: "\<forall>r. \<forall>i<length ?counts. i \<in> set (?order r)"
          proof (intro allI impI)
            fix r i
            assume i: "i < length ?counts"
            show "i \<in> set (?order r)"
            proof (cases shuffle)
              case True
              with perms label_key_column [OF chk lc] ids
              have "mset (perms r) = mset [0..<distinct_labels label_ids]"
                by blast
              then have "set (perms r) = set [0..<length ?counts]"
                unfolding length_counts_label_ids by (rule mset_eq_setD)
              with True i show ?thesis
                by simp
            next
              case False
              with i show ?thesis
                by simp
            qed
          qed
          have "\<exists>res. balance_rounds (\<lambda>r. visit ?counts N batch_size ld (?order r)) 0
              \<lparr>data_idx = replicate (length ?counts) 0,
               num_data_cycles = replicate (length ?counts) 0,
               skipped = replicate (length ?counts) False,
               new_data = []\<rparr> = Some res"
            using index_batch_size_pos [OF b] all initial_ctl_inv
            by (intro balance_rounds_visit_terminates) simp_all
          then obtain res where "balance_rounds (\<lambda>r. visit ?counts N batch_size ld (?order r)) 0
              \<lparr>data_idx = replicate (length ?counts) 0,
               num_data_cycles = replicate (length ?counts) 0,
               skipped = replicate (length ?counts) False,
               new_data = []\<rparr> = Some res"
            by blast
          with chk lc ids sp N show ?thesis
            by (cases res) (simp_all add: balance_def Let_def)
        qed
      qed
    qed
  qed
qed


theorem balance_terminates_witness:
  "(0 :: int) \<le> 1 \<and>
   create_label_ids str_of_int (Array [] [[0], [1], [1], [1 :: int]]) = Inr (Vals [0, 1, 1, 1]) \<and>
   mset [1, 0 :: nat] = mset [0..<distinct_labels (Vals [0, 1, 1, 1 :: int])] \<and>
   (\<exists>res. balance (\<lambda>r. [1, 0]) str_of_int 1 True ''label''
      [(''text'', [Array [2] [[10, 11], [20, 21], [30, 31], [40, 41 :: int]]]),
       (''label'', [Array [] [[0], [1], [1], [1]]])] = Some res)"
proof -
  have perms: "\<forall>labels label_ids (round :: nat).
      map_of [(''text'', [Array [2] [[10, 11], [20, 21], [30, 31], [40, 41 :: int]]]),
              (''label'', [Array [] [[0], [1], [1], [1]]])] ''label'' = Some [labels] \<longrightarrow>
      create_label_ids str_of_int labels = Inr label_ids \<longrightarrow>
      mset [1, 0 :: nat] = mset [0..<distinct_labels label_ids]"
    by (auto simp: distinct_labels_def upt_rec numeral_2_eq_2)
  from balance_terminates [of 1 True
      "[(''text'', [Array [2] [[10, 11], [20, 21], [30, 31], [40, 41 :: int]]]),
        (''label'', [Array [] [[0], [1], [1], [1]]])]" "''label''" str_of_int "\<lambda>r. [1, 0]"] perms
  show ?thesis
    by (simp add: distinct_labels_def upt_rec numeral_2_eq_2)
qed

text \<open>
  With batch size \<open>-1\<close> and a table of one example the slice length is
  \<^verbatim>\<open>int(1 / 1 * -1) + 1 = 0\<close>: the cursor of the only class never moves, and the loop never ends.
\<close>

theorem balance_terminates_counterexample:
  "index_batch_size 1 1 (- 1) = 0 \<and>
   balance (\<lambda>r. []) str_of_int (- 1) False ''label'' [(''label'', [Array [] [[0 :: int]]])] = None"
proof -
  let ?ld = "[[(''label'', [Array [] [[0 :: int]]])]]"
  define stuck where "stuck = (\<lambda>s :: int balance_state. data_idx s = [0] \<and> num_data_cycles s = [0])"
  have size: "index_batch_size 1 1 (- 1) = 0"
    by (simp add: index_batch_size_def trunc_div_def)
  have size': "index_batch_size (Suc 0) (Suc 0) (- 1) = 0"
    by (simp add: index_batch_size_def trunc_div_def)
  have app: "\<exists>nd'. append_slices 0 0 [(''label'', [Array [] [[0 :: int]]])] nd = Inr nd'" for nd
    by simp
  have step: "num_data_cycles s \<noteq> [] \<and> min_list (num_data_cycles s) = 0 \<and>
      (\<exists>s'. visit [1] 1 (- 1) ?ld [0] s = Inr s' \<and> stuck s')" if "stuck s" for s and r :: nat
  proof -
    from that have s: "data_idx s = [0]" "num_data_cycles s = [0]"
      by (simp_all add: stuck_def)
    from app [of "new_data s"] obtain nd' where
      nd': "append_slices 0 0 [(''label'', [Array [] [[0 :: int]]])] (new_data s) = Inr nd'"
      by blast
    have "visit [1] 1 (- 1) ?ld [0] s = Inr (advance [1] 0 0 nd' s)"
      using nd' by (simp add: s size' advance_def Let_def del: append_slices.simps)
    moreover have "stuck (advance [1] 0 0 nd' s)"
      by (simp add: stuck_def advance_def Let_def s)
    ultimately show ?thesis
      by (simp add: s)
  qed
  have "balance_rounds (\<lambda>round. visit [1] 1 (- 1) ?ld [0]) 0
      \<lparr>data_idx = [0], num_data_cycles = [0], skipped = [False], new_data = []\<rparr> = None"
  proof (rule balance_rounds_diverges [where stuck = stuck])
    show "stuck \<lparr>data_idx = [0], num_data_cycles = [0], skipped = [False], new_data = []\<rparr>"
      by (simp add: stuck_def)
  next
    fix r :: nat and s :: "int balance_state"
    assume "stuck s"
    then show "num_data_cycles s \<noteq> [] \<and> min_list (num_data_cycles s) = 0 \<and>
      (\<exists>s'. visit [1] 1 (- 1) ?ld [0] s = Inr s' \<and> stuck s')"
      by (rule step)
  qed
  then have "balance (\<lambda>r. []) str_of_int (- 1) False ''label'' [(''label'', [Array [] [[0 :: int]]])] = None"
    by (simp add: balance_def check_label_key_def label_column_def nth_err_def unique_def
        split_by_label_ids_def data_for_ids_def columns_def get_number_of_examples_def)
  with size show ?thesis
    by simp
qed


end
